theory Spec2Isabelle
  imports Main
begin

unbundle bit_operations_syntax

section \<open>The data model of \<^verbatim>\<open>hash_table.hh\<close>\<close>

text \<open>
  The header defines one class template, \<^verbatim>\<open>hash_table<Key, Value, Hash, Equal>\<close>: an
  open-addressing table with linear probing that keeps no tombstones. The state is the
  slot vector, the number of stored pairs and the cached maximal probe offset.

  Conventions of the embedding:
  \<^item> \<^verbatim>\<open>std::size_t\<close> is \<open>nat\<close>. Indices, \<^verbatim>\<open>count\<close> and probe offsets are bounded by the
    length of the slot vector, which can never approach \<open>2 ^ 64\<close>; the two places where
    a \<^verbatim>\<open>size_t\<close> can really wrap (the arithmetic on the caller's capacity hint and the
    decrement in \<^verbatim>\<open>remove\<close>) have the wrap-around written out.
  \<^item> \<^verbatim>\<open>Hash\<close> is a parameter \<open>hash\<close> of the functions that use it; \<^verbatim>\<open>Equal\<close> is the default
    \<^verbatim>\<open>std::equal_to\<close>, that is HOL equality.
  \<^item> A value-initialised \<^verbatim>\<open>Key{}\<close> or \<^verbatim>\<open>Value{}\<close> is \<open>default\<close> of the class of that name.
  \<^item> A pointer into the slot vector (\<^verbatim>\<open>Slot *\<close>, \<^verbatim>\<open>KeyValue *\<close>, \<^verbatim>\<open>Value *\<close>) is the index of
    its slot; a null pointer is \<open>None\<close>.
  \<^item> \<^verbatim>\<open>slots.resize\<close> is the only allocation of the class. Whether it succeeds is decided
    by a parameter \<open>alloc\<close> (the number of slots asked for is its argument); when it
    fails the exception leaves the function, and the result carries the state the table
    is left in.
  \<^item> The \<^verbatim>\<open>assert\<close>s of the source are preconditions, not behaviour (they vanish under
    \<^verbatim>\<open>NDEBUG\<close>); they are not part of the functions below.
\<close>

record ('k, 'v) KeyValue =
  key :: 'k
  val :: 'v

record ('k, 'v) Slot =
  kv :: "('k, 'v) KeyValue"
  used :: bool

record ('k, 'v) hash_table =
  slots :: "('k, 'v) Slot list"
  count :: nat
  max_hash_offset :: nat

datatype error = Bad_alloc | Terminate

text \<open>Value-initialisation of the key and value types used in the examples below.\<close>

instantiation nat :: default
begin
definition default_nat :: nat where "default_nat = 0"
instance ..
end

instantiation list :: (type) default
begin
definition default_list :: "'a list" where "default_list = []"
instance ..
end

text \<open>\<^verbatim>\<open>Slot()\<close>: value-initialised payload, not used.\<close>

definition Slot_empty :: "('k::default, 'v::default) Slot" where
  "Slot_empty = \<lparr>kv = \<lparr>key = default, val = default\<rparr>, used = False\<rparr>"

text \<open>\<^verbatim>\<open>Slot(Key key, Value value)\<close>: the pair, used.\<close>

definition Slot_of :: "'k \<Rightarrow> 'v \<Rightarrow> ('k, 'v) Slot" where
  "Slot_of k v = \<lparr>kv = \<lparr>key = k, val = v\<rparr>, used = True\<rparr>"

definition equals :: "('k, 'v) Slot \<Rightarrow> 'k \<Rightarrow> bool" where
  "equals s k = (key (kv s) = k)"

section \<open>The probe engine\<close>

definition mask_ht :: "('k, 'v) hash_table \<Rightarrow> nat" where
  "mask_ht t = length (slots t) - 1"

definition key_index :: "('k \<Rightarrow> nat) \<Rightarrow> ('k, 'v) hash_table \<Rightarrow> 'k \<Rightarrow> nat" where
  "key_index hash t k = hash k AND mask_ht t"

definition should_rehash :: "('k, 'v) hash_table \<Rightarrow> bool" where
  "should_rehash t = (slots t = [] \<or> count t > length (slots t) * 3 div 4)"

text \<open>
  The \<^verbatim>\<open>do ... while (hash_offset <= max_hash_offset)\<close> loop of \<^verbatim>\<open>get_slot\<close>: the slot at
  \<open>i\<close> is examined, then both \<open>i\<close> and \<open>hash_offset\<close> advance, whether or not the slot is
  used.
\<close>

function get_slot_loop :: "('k, 'v) hash_table \<Rightarrow> 'k \<Rightarrow> nat \<Rightarrow> nat \<Rightarrow> nat option" where
  "get_slot_loop t k i hash_offset =
     (if used (slots t ! i) \<and> equals (slots t ! i) k then Some i
      else if hash_offset + 1 \<le> max_hash_offset t
        then get_slot_loop t k ((i + 1) AND mask_ht t) (hash_offset + 1)
        else None)"
  by pat_completeness auto
termination
  by (relation "measure (\<lambda>(t, k, i, hash_offset). max_hash_offset t - hash_offset)") auto

definition get_slot :: "('k \<Rightarrow> nat) \<Rightarrow> ('k, 'v) hash_table \<Rightarrow> 'k \<Rightarrow> nat option" where
  "get_slot hash t k =
     (if slots t = [] then None else get_slot_loop t k (key_index hash t k) 0)"

text \<open>
  The \<^verbatim>\<open>while (slots[i].used)\<close> loop of \<^verbatim>\<open>insert_nonexistent_norehash\<close>. Nothing bounds
  it: on a vector without a free slot it runs forever, which is the value \<open>None\<close>.
\<close>

partial_function (option) find_unused ::
  "('k, 'v) Slot list \<Rightarrow> nat \<Rightarrow> nat \<Rightarrow> (nat \<times> nat) option" where
  "find_unused ss i hash_offset =
     (if used (ss ! i) then find_unused ss ((i + 1) AND (length ss - 1)) (hash_offset + 1)
      else Some (i, hash_offset))"

declare find_unused.simps [code]

text \<open>
  \<^verbatim>\<open>insert_nonexistent_norehash\<close> returns the new state and the index of the slot written.
  On an empty vector \<^verbatim>\<open>slots[i]\<close> is an out-of-range access; the model has no result
  there (the callers never do it).
\<close>

definition insert_nonexistent_norehash ::
  "('k \<Rightarrow> nat) \<Rightarrow> ('k, 'v) hash_table \<Rightarrow> 'k \<Rightarrow> 'v \<Rightarrow> (('k, 'v) hash_table \<times> nat) option" where
  "insert_nonexistent_norehash hash t k v =
     (if slots t = [] then None
      else case find_unused (slots t) (key_index hash t k) 0 of
        None \<Rightarrow> None
      | Some (i, hash_offset) \<Rightarrow>
          Some (t\<lparr>slots := (slots t)[i := Slot_of k v],
                  count := count t + 1,
                  max_hash_offset :=
                    (if hash_offset > max_hash_offset t then hash_offset
                     else max_hash_offset t)\<rparr>, i))"

section \<open>Growth\<close>

definition clear :: "('k, 'v) hash_table \<Rightarrow> ('k, 'v) hash_table" where
  "clear t = t\<lparr>slots := [], count := 0, max_hash_offset := 0\<rparr>"

text \<open>\<^verbatim>\<open>std::vector::resize\<close>: cut, or pad with default-constructed slots.\<close>

definition resize :: "nat \<Rightarrow> ('k::default, 'v::default) Slot list \<Rightarrow> ('k, 'v) Slot list" where
  "resize n ss = take n ss @ replicate (n - length ss) Slot_empty"

text \<open>The \<^verbatim>\<open>for (auto &slot : old_slots)\<close> loop of \<^verbatim>\<open>rehash\<close>.\<close>

fun reinsert ::
  "('k \<Rightarrow> nat) \<Rightarrow> ('k, 'v) Slot list \<Rightarrow> ('k, 'v) hash_table \<Rightarrow> ('k, 'v) hash_table option" where
  "reinsert hash [] t = Some t"
| "reinsert hash (slot # old_slots) t =
     (if used slot
      then case insert_nonexistent_norehash hash t (key (kv slot)) (val (kv slot)) of
             None \<Rightarrow> None
           | Some (t', _) \<Rightarrow> reinsert hash old_slots t'
      else reinsert hash old_slots t)"

text \<open>
  \<^verbatim>\<open>rehash\<close>: the old vector is moved out and the table cleared before the new vector is
  allocated. \<open>Inl (Bad_alloc, t')\<close> is the exception of \<^verbatim>\<open>resize\<close> leaving the function with
  the table in state \<open>t'\<close>.
\<close>

definition rehash ::
  "(nat \<Rightarrow> bool) \<Rightarrow> ('k \<Rightarrow> nat) \<Rightarrow> ('k::default, 'v::default) hash_table
     \<Rightarrow> (error \<times> ('k, 'v) hash_table + ('k, 'v) hash_table) option" where
  "rehash alloc hash t =
     (let new_size = (if slots t = [] then 8 else length (slots t) * 2);
          old_slots = slots t;
          t1 = clear t
      in if \<not> alloc new_size then Some (Inl (Bad_alloc, t1))
         else map_option Inr
                (reinsert hash old_slots (t1\<lparr>slots := resize new_size (slots t1)\<rparr>)))"

section \<open>Construction\<close>

definition hash_table_init :: "('k, 'v) hash_table" where
  "hash_table_init = \<lparr>slots = [], count = 0, max_hash_offset = 0\<rparr>"

text \<open>
  The \<^verbatim>\<open>while (real_cap < min_num_slots) real_cap *= 2\<close> loop of the sizing constructor,
  on 64-bit values.
\<close>

partial_function (option) grow_cap :: "nat \<Rightarrow> nat \<Rightarrow> nat option" where
  "grow_cap real_cap min_num_slots =
     (if real_cap < min_num_slots then grow_cap (real_cap * 2 mod 2 ^ 64) min_num_slots
      else Some real_cap)"

declare grow_cap.simps [code]

text \<open>
  \<^verbatim>\<open>hash_table(std::size_t capacity) noexcept\<close>. The constructor is \<^verbatim>\<open>noexcept\<close>, so a
  failing \<^verbatim>\<open>resize\<close> ends the program: \<open>Inl Terminate\<close>.
\<close>

definition hash_table_with_capacity ::
  "(nat \<Rightarrow> bool) \<Rightarrow> nat \<Rightarrow> (error + ('k::default, 'v::default) hash_table) option" where
  "hash_table_with_capacity alloc capacity =
     (let min_num_slots = ((capacity * 4 + 2) mod 2 ^ 64) div 3
      in case grow_cap 8 min_num_slots of
           None \<Rightarrow> None
         | Some real_cap \<Rightarrow>
             if alloc real_cap
             then Some (Inr (hash_table_init\<lparr>slots := resize real_cap (slots hash_table_init)\<rparr>))
             else Some (Inl Terminate))"

text \<open>
  \<^verbatim>\<open>hash_table(hash_table &&other)\<close>: the new table takes the members and \<^verbatim>\<open>other\<close> is
  cleared. The result is the pair (new table, \<^verbatim>\<open>other\<close> afterwards).
\<close>

definition hash_table_move ::
  "('k, 'v) hash_table \<Rightarrow> ('k, 'v) hash_table \<times> ('k, 'v) hash_table" where
  "hash_table_move other =
     (\<lparr>slots = slots other, count = count other, max_hash_offset = max_hash_offset other\<rparr>,
      clear other)"

section \<open>The public operations\<close>

definition get :: "('k \<Rightarrow> nat) \<Rightarrow> ('k, 'v) hash_table \<Rightarrow> 'k \<Rightarrow> 'v option" where
  "get hash t k = map_option (\<lambda>i. val (kv (slots t ! i))) (get_slot hash t k)"

text \<open>
  \<^verbatim>\<open>set\<close> returns the new state and the index of the slot that holds the value. An
  exception of \<^verbatim>\<open>rehash\<close> passes through.
\<close>

definition set_ht ::
  "(nat \<Rightarrow> bool) \<Rightarrow> ('k \<Rightarrow> nat) \<Rightarrow> ('k::default, 'v::default) hash_table \<Rightarrow> 'k \<Rightarrow> 'v
     \<Rightarrow> (error \<times> ('k, 'v) hash_table + ('k, 'v) hash_table \<times> nat) option" where
  "set_ht alloc hash t k v =
     (case get_slot hash t k of
        Some i \<Rightarrow>
          Some (Inr (t\<lparr>slots := (slots t)[i := (slots t ! i)\<lparr>kv := (kv (slots t ! i))\<lparr>val := v\<rparr>\<rparr>]\<rparr>, i))
      | None \<Rightarrow>
          if should_rehash t
          then case rehash alloc hash t of
                 None \<Rightarrow> None
               | Some (Inl e) \<Rightarrow> Some (Inl e)
               | Some (Inr t') \<Rightarrow> map_option Inr (insert_nonexistent_norehash hash t' k v)
          else map_option Inr (insert_nonexistent_norehash hash t k v))"

text \<open>\<^verbatim>\<open>remove\<close>; \<^verbatim>\<open>count--\<close> on a \<^verbatim>\<open>size_t\<close> wraps at 0.\<close>

definition remove_ht ::
  "('k \<Rightarrow> nat) \<Rightarrow> ('k::default, 'v::default) hash_table \<Rightarrow> 'k \<Rightarrow> ('k, 'v) hash_table" where
  "remove_ht hash t k =
     (case get_slot hash t k of
        Some i \<Rightarrow> t\<lparr>slots := (slots t)[i := Slot_empty],
                    count := (if count t = 0 then 2 ^ 64 - 1 else count t - 1)\<rparr>
      | None \<Rightarrow> t)"

text \<open>\<^verbatim>\<open>operator[]\<close>.\<close>

definition index_op ::
  "(nat \<Rightarrow> bool) \<Rightarrow> ('k \<Rightarrow> nat) \<Rightarrow> ('k::default, 'v::default) hash_table \<Rightarrow> 'k
     \<Rightarrow> (error \<times> ('k, 'v) hash_table + ('k, 'v) hash_table \<times> nat) option" where
  "index_op alloc hash t k =
     (case get_slot hash t k of
        Some i \<Rightarrow> Some (Inr (t, i))
      | None \<Rightarrow> set_ht alloc hash t k default)"

section \<open>Iteration\<close>

text \<open>
  An iterator is the pair (owner, slot index); the owner is the table argument. The loop
  \<^verbatim>\<open>while (slot_index < slots.size() && not slots[slot_index].used) slot_index++\<close> is
  shared by \<^verbatim>\<open>begin\<close> and \<^verbatim>\<open>operator++\<close> (whose \<^verbatim>\<open>do ... while\<close> increments once
  before it).
\<close>

function skip_unused :: "('k, 'v) hash_table \<Rightarrow> nat \<Rightarrow> nat" where
  "skip_unused t slot_index =
     (if slot_index < length (slots t) \<and> \<not> used (slots t ! slot_index)
      then skip_unused t (slot_index + 1) else slot_index)"
  by pat_completeness auto
termination
  by (relation "measure (\<lambda>(t, slot_index). length (slots t) - slot_index)") auto

definition begin_it :: "('k, 'v) hash_table \<Rightarrow> nat" where
  "begin_it t = skip_unused t 0"

definition end_it :: "('k, 'v) hash_table \<Rightarrow> nat" where
  "end_it t = length (slots t)"

definition incr_it :: "('k, 'v) hash_table \<Rightarrow> nat \<Rightarrow> nat" where
  "incr_it t slot_index = skip_unused t (slot_index + 1)"

definition deref_it :: "('k, 'v) hash_table \<Rightarrow> nat \<Rightarrow> ('k, 'v) KeyValue" where
  "deref_it t slot_index = kv (slots t ! slot_index)"

text \<open>
  The traversal \<^verbatim>\<open>for (auto it = t.begin(); it != t.end(); ++it)\<close> collecting \<^verbatim>\<open>*it\<close>.
  The loop ends only when the index equals \<^verbatim>\<open>slots.size()\<close>, so it is a partial function.
\<close>

partial_function (option) iterate_from ::
  "('k, 'v) hash_table \<Rightarrow> nat \<Rightarrow> ('k, 'v) KeyValue list \<Rightarrow> ('k, 'v) KeyValue list option" where
  "iterate_from t it acc =
     (if it = end_it t then Some acc
      else iterate_from t (incr_it t it) (acc @ [deref_it t it]))"

declare iterate_from.simps [code]

definition iterate :: "('k, 'v) hash_table \<Rightarrow> ('k, 'v) KeyValue list option" where
  "iterate t = iterate_from t (begin_it t) []"

section \<open>Sequences of operations\<close>

text \<open>
  A client program, as far as one table is concerned, is a sequence of calls. \<open>run_ops\<close>
  performs them in order; it has a result only if every call returns normally.
\<close>

datatype ('k, 'v) op = Set 'k 'v | Remove 'k

fun run_ops ::
  "(nat \<Rightarrow> bool) \<Rightarrow> ('k \<Rightarrow> nat) \<Rightarrow> ('k::default, 'v::default) hash_table \<Rightarrow> ('k, 'v) op list
     \<Rightarrow> ('k, 'v) hash_table option" where
  "run_ops alloc hash t [] = Some t"
| "run_ops alloc hash t (Set k v # ops) =
     (case set_ht alloc hash t k v of
        Some (Inr (t', _)) \<Rightarrow> run_ops alloc hash t' ops
      | _ \<Rightarrow> None)"
| "run_ops alloc hash t (Remove k # ops) = run_ops alloc hash (remove_ht hash t k) ops"

text \<open>
  What the most recent call on key \<open>k\<close> in a sequence did: \<open>None\<close> if no call named \<open>k\<close>,
  \<open>Some (Some v)\<close> if it was \<^verbatim>\<open>set(k, v)\<close>, \<open>Some None\<close> if it was \<^verbatim>\<open>remove(k)\<close>.
\<close>

fun last_write :: "'k \<Rightarrow> ('k, 'v) op list \<Rightarrow> 'v option option" where
  "last_write k [] = None"
| "last_write k (Set k' v # ops) =
     (case last_write k ops of
        Some w \<Rightarrow> Some w
      | None \<Rightarrow> if k' = k then Some (Some v) else None)"
| "last_write k (Remove k' # ops) =
     (case last_write k ops of
        Some w \<Rightarrow> Some w
      | None \<Rightarrow> if k' = k then Some None else None)"

section \<open>Reachable states and the representation invariant\<close>

text \<open>
  The states a table can be in: those of the constructors, and those the public
  operations lead to, whether they return or throw (a caller may catch the exception
  and go on using the table). Copying, assignment and \<^verbatim>\<open>swap\<close> hand existing states
  to other objects, \<^verbatim>\<open>erase\<close> is \<^verbatim>\<open>remove\<close> of the key at the iterator, and the
  initializer-list constructor is the sizing constructor followed by \<^verbatim>\<open>set\<close>s.
\<close>

inductive reachable :: "('k::default \<Rightarrow> nat) \<Rightarrow> ('k, 'v::default) hash_table \<Rightarrow> bool"
  for hash :: "'k \<Rightarrow> nat" where
  init: "reachable hash hash_table_init"
| with_capacity:
    "hash_table_with_capacity alloc capacity = Some (Inr t) \<Longrightarrow> reachable hash t"
| clear: "reachable hash t \<Longrightarrow> reachable hash (clear t)"
| set: "reachable hash t \<Longrightarrow> set_ht alloc hash t k v = Some (Inr (t', i)) \<Longrightarrow> reachable hash t'"
| set_throws:
    "reachable hash t \<Longrightarrow> set_ht alloc hash t k v = Some (Inl (e, t')) \<Longrightarrow> reachable hash t'"
| remove: "reachable hash t \<Longrightarrow> reachable hash (remove_ht hash t k)"
| index:
    "reachable hash t \<Longrightarrow> index_op alloc hash t k = Some (Inr (t', i)) \<Longrightarrow> reachable hash t'"
| index_throws:
    "reachable hash t \<Longrightarrow> index_op alloc hash t k = Some (Inl (e, t')) \<Longrightarrow> reachable hash t'"
| move_to: "reachable hash t \<Longrightarrow> reachable hash (fst (hash_table_move t))"
| move_from: "reachable hash t \<Longrightarrow> reachable hash (snd (hash_table_move t))"

text \<open>Key \<open>k\<close> is stored in slot \<open>j\<close>.\<close>

definition at_slot :: "('k, 'v) hash_table \<Rightarrow> 'k \<Rightarrow> nat \<Rightarrow> bool" where
  "at_slot t k j \<longleftrightarrow> j < length (slots t) \<and> used (slots t ! j) \<and> key (kv (slots t ! j)) = k"

text \<open>
  The representation invariant: the capacity is 0 or a power of two from 8 on,
  \<open>count\<close> is the number of used slots, every stored key sits within
  \<open>max_hash_offset\<close> steps of its natural slot, and no key is stored twice.
\<close>

definition valid :: "('k \<Rightarrow> nat) \<Rightarrow> ('k, 'v) hash_table \<Rightarrow> bool" where
  "valid hash t \<longleftrightarrow>
     (slots t = [] \<or> (\<exists>e\<ge>3. length (slots t) = 2 ^ e)) \<and>
     count t = length (filter used (slots t)) \<and>
     (\<forall>j k. at_slot t k j \<longrightarrow>
        (\<exists>d\<le>max_hash_offset t. (hash k + d) mod length (slots t) = j)) \<and>
     (\<forall>i j k. at_slot t k i \<longrightarrow> at_slot t k j \<longrightarrow> i = j)"

text \<open>The load bound the code really keeps: one more than three quarters.\<close>

definition load_ok :: "('k, 'v) hash_table \<Rightarrow> bool" where
  "load_ok t \<longleftrightarrow> slots t = [] \<or> count t \<le> length (slots t) * 3 div 4 + 1"

definition table_inv :: "('k \<Rightarrow> nat) \<Rightarrow> ('k, 'v) hash_table \<Rightarrow> bool" where
  "table_inv hash t \<longleftrightarrow> valid hash t \<and> load_ok t"

text \<open>The size \<^verbatim>\<open>rehash\<close> asks for.\<close>

definition new_size :: "('k, 'v) hash_table \<Rightarrow> nat" where
  "new_size t = (if slots t = [] then 8 else length (slots t) * 2)"

section \<open>Example parameters\<close>

definition alloc_ok :: "nat \<Rightarrow> bool" where
  "alloc_ok n = True"

definition alloc_fails :: "nat \<Rightarrow> bool" where
  "alloc_fails n = False"

text \<open>A constant hash: every key has the natural slot \<open>h AND mask\<close>.\<close>

definition hash_const :: "nat \<Rightarrow> 'k \<Rightarrow> nat" where
  "hash_const h k = h"

definition hash_id :: "nat \<Rightarrow> nat" where
  "hash_id k = k"

text \<open>
  The table after \<^verbatim>\<open>set(1, 1)\<close>, ..., \<^verbatim>\<open>set(7, 7)\<close> on a default-constructed table with the
  identity hash.
\<close>

definition example_seven :: "(nat, nat) hash_table" where
  "example_seven =
     \<lparr>slots = (replicate 8 Slot_empty)
                [1 := Slot_of 1 1, 2 := Slot_of 2 2, 3 := Slot_of 3 3, 4 := Slot_of 4 4,
                 5 := Slot_of 5 5, 6 := Slot_of 6 6, 7 := Slot_of 7 7],
      count = 7, max_hash_offset = 0\<rparr>"

text \<open>
  The tables of the three-colliding-keys scenario with the constant hash 0: after
  \<^verbatim>\<open>set("a", 1)\<close>, \<^verbatim>\<open>set("b", 2)\<close>, \<^verbatim>\<open>set("c", 3)\<close> on a default-constructed table, and after
  the following \<^verbatim>\<open>remove("b")\<close>.
\<close>

definition example_abc :: "(string, nat) hash_table" where
  "example_abc =
     \<lparr>slots = (replicate 8 Slot_empty)
                [0 := Slot_of ''a'' 1, 1 := Slot_of ''b'' 2, 2 := Slot_of ''c'' 3],
      count = 3, max_hash_offset = 2\<rparr>"

definition example_ac :: "(string, nat) hash_table" where
  "example_ac =
     \<lparr>slots = (replicate 8 Slot_empty)[0 := Slot_of ''a'' 1, 2 := Slot_of ''c'' 3],
      count = 2, max_hash_offset = 2\<rparr>"


text \<open>The table after \<^verbatim>\<open>set(8, 8)\<close> on \<open>example_seven\<close>, which grows it.\<close>

definition example_eight :: "(nat, nat) hash_table" where
  "example_eight =
     \<lparr>slots = (replicate 16 Slot_empty)
                [1 := Slot_of 1 1, 2 := Slot_of 2 2, 3 := Slot_of 3 3, 4 := Slot_of 4 4,
                 5 := Slot_of 5 5, 6 := Slot_of 6 6, 7 := Slot_of 7 7, 8 := Slot_of 8 8],
      count = 8, max_hash_offset = 0\<rparr>"

text \<open>
  The same scenario for any constant hash \<open>h\<close> and any values: the three keys take the
  slots \<open>h mod 8\<close>, \<open>(h + 1) mod 8\<close> and \<open>(h + 2) mod 8\<close> of the eight the first insertion
  allocates, and the removal empties the middle one.
\<close>

definition scenario_abc :: "nat \<Rightarrow> 'v \<Rightarrow> 'v \<Rightarrow> 'v \<Rightarrow> (string, 'v::default) hash_table" where
  "scenario_abc h va vb vc =
     \<lparr>slots = (replicate 8 Slot_empty)
                [h mod 8 := Slot_of ''a'' va, (h + 1) mod 8 := Slot_of ''b'' vb,
                 (h + 2) mod 8 := Slot_of ''c'' vc],
      count = 3, max_hash_offset = 2\<rparr>"

definition scenario_ac :: "nat \<Rightarrow> 'v \<Rightarrow> 'v \<Rightarrow> (string, 'v::default) hash_table" where
  "scenario_ac h va vc =
     \<lparr>slots = (replicate 8 Slot_empty)
                [h mod 8 := Slot_of ''a'' va, (h + 2) mod 8 := Slot_of ''c'' vc],
      count = 2, max_hash_offset = 2\<rparr>"

text \<open>
  The table after \<^verbatim>\<open>set("a", 1)\<close>, \<^verbatim>\<open>set("b", 2)\<close>, \<^verbatim>\<open>set("a", 5)\<close>, \<^verbatim>\<open>remove("b")\<close> on a
  default-constructed table with the constant hash 0.
\<close>

definition example_overwritten :: "(string, nat) hash_table" where
  "example_overwritten =
     \<lparr>slots = (replicate 8 Slot_empty)[0 := Slot_of ''a'' 5], count = 1, max_hash_offset = 1\<rparr>"

text \<open>The table \<^verbatim>\<open>hash_table(6)\<close> constructs.\<close>

definition example_sized :: "(nat, nat) hash_table" where
  "example_sized = \<lparr>slots = replicate 8 Slot_empty, count = 0, max_hash_offset = 0\<rparr>"

section \<open>Facts about lists and bit masks\<close>

lemma and_pow2_mask: "(x::nat) AND (2 ^ e - 1) = x mod 2 ^ e"
proof -
  have "x AND (2 ^ e - 1) = x AND mask e" by (simp only: mask_eq_exp_minus_1)
  also have "\<dots> = take_bit e x" by (simp only: take_bit_eq_mask)
  also have "\<dots> = x mod 2 ^ e" by (simp only: take_bit_eq_mod)
  finally show ?thesis .
qed

lemma distinct_filter_nthI:
  "(\<And>i j. i < length xs \<Longrightarrow> j < length xs \<Longrightarrow> P (xs ! i) \<Longrightarrow> P (xs ! j) \<Longrightarrow> f (xs ! i) = f (xs ! j) \<Longrightarrow> i = j)
   \<Longrightarrow> distinct (map f (filter P xs))"
proof (induction xs)
  case Nil
  then show ?case by simp
next
  case (Cons x xs)
  have tl: "distinct (map f (filter P xs))"
  proof (rule Cons.IH)
    fix i j assume "i < length xs" "j < length xs" "P (xs ! i)" "P (xs ! j)" "f (xs ! i) = f (xs ! j)"
    then have "Suc i = Suc j" using Cons.prems[of "Suc i" "Suc j"] by simp
    then show "i = j" by simp
  qed
  have hd: "f x \<notin> f ` set (filter P xs)" if "P x"
  proof
    assume "f x \<in> f ` set (filter P xs)"
    then obtain y where y: "y \<in> set xs" "P y" "f y = f x" by auto
    then obtain j where j: "j < length xs" "xs ! j = y" by (auto simp: in_set_conv_nth)
    have "Suc j = 0" using Cons.prems[of "Suc j" 0] j y that by simp
    then show False by simp
  qed
  show ?case using tl hd by simp
qed


section \<open>The bounded walk\<close>

declare get_slot_loop.simps [simp del]

lemma mask_ht_pow2: "length (slots t) = 2 ^ e \<Longrightarrow> x AND mask_ht t = x mod length (slots t)"
  using and_pow2_mask[of x e] by (simp add: mask_ht_def)

lemma mask_ht_less: "length (slots t) = 2 ^ e \<Longrightarrow> x AND mask_ht t < length (slots t)"
proof -
  assume a: "length (slots t) = 2 ^ e"
  then have "x AND mask_ht t = x mod length (slots t)" by (rule mask_ht_pow2)
  moreover have "x mod length (slots t) < length (slots t)" using a by simp
  ultimately show ?thesis by simp
qed

lemma get_slot_loop_sound:
  "get_slot_loop t k i off = Some j \<Longrightarrow> length (slots t) = 2 ^ e \<Longrightarrow> i < length (slots t)
   \<Longrightarrow> at_slot t k j"
proof (induction t k i off rule: get_slot_loop.induct)
  case (1 t k i off)
  show ?case
  proof (cases "used (slots t ! i) \<and> equals (slots t ! i) k")
    case True
    with "1.prems" show ?thesis
      by (subst (asm) get_slot_loop.simps) (auto simp: at_slot_def equals_def)
  next
    case False
    with "1.prems"(1) have more: "off + 1 \<le> max_hash_offset t"
      and rec: "get_slot_loop t k ((i + 1) AND mask_ht t) (off + 1) = Some j"
      by (subst (asm) get_slot_loop.simps, simp split: if_splits)+
    have "(i + 1) AND mask_ht t < length (slots t)"
      using "1.prems"(2) by (rule mask_ht_less)
    with "1.IH"[OF False more rec "1.prems"(2)] show ?thesis .
  qed
qed

lemma get_slot_loop_complete:
  "at_slot t k ((i + d) mod length (slots t)) \<Longrightarrow> off + d \<le> max_hash_offset t
   \<Longrightarrow> length (slots t) = 2 ^ e \<Longrightarrow> i < length (slots t)
   \<Longrightarrow> get_slot_loop t k i off \<noteq> None"
proof (induction d arbitrary: i off)
  case 0
  then show ?case
    by (subst get_slot_loop.simps) (simp add: at_slot_def equals_def)
next
  case (Suc d)
  let ?i' = "(i + 1) AND mask_ht t"
  have i': "?i' = (i + 1) mod length (slots t)"
    using Suc.prems(3) by (simp add: mask_ht_pow2)
  have "(?i' + d) mod length (slots t) = ((i + 1) mod length (slots t) + d) mod length (slots t)"
    by (simp only: i')
  also have "\<dots> = (i + 1 + d) mod length (slots t)" by (rule mod_add_left_eq)
  finally have "(?i' + d) mod length (slots t) = (i + Suc d) mod length (slots t)" by simp
  with Suc.prems(1) have a: "at_slot t k ((?i' + d) mod length (slots t))" by simp
  have b: "off + 1 + d \<le> max_hash_offset t" using Suc.prems(2) by simp
  have c: "?i' < length (slots t)" using Suc.prems(3) by (rule mask_ht_less)
  have "get_slot_loop t k ?i' (off + 1) \<noteq> None"
    by (rule Suc.IH[OF a b Suc.prems(3) c])
  moreover have "off + 1 \<le> max_hash_offset t" using Suc.prems(2) by simp
  ultimately show ?case
    by (subst get_slot_loop.simps) simp
qed

lemma key_index_mod:
  "length (slots t) = 2 ^ e \<Longrightarrow> key_index hash t k = hash k mod length (slots t)"
  by (simp add: key_index_def mask_ht_pow2)

lemma valid_pow2: "valid hash t \<Longrightarrow> slots t \<noteq> [] \<Longrightarrow> \<exists>e\<ge>3. length (slots t) = 2 ^ e"
  by (auto simp: valid_def)

lemma at_slot_unique: "valid hash t \<Longrightarrow> at_slot t k i \<Longrightarrow> at_slot t k j \<Longrightarrow> i = j"
  unfolding valid_def by blast

lemma at_slot_nonempty: "at_slot t k j \<Longrightarrow> slots t \<noteq> []"
  by (auto simp: at_slot_def)

lemma get_slot_Some_iff:
  assumes "valid hash t"
  shows "get_slot hash t k = Some j \<longleftrightarrow> at_slot t k j"
proof
  assume g: "get_slot hash t k = Some j"
  then have ne: "slots t \<noteq> []" by (auto simp: get_slot_def split: if_splits)
  then obtain e where e: "length (slots t) = 2 ^ e" using valid_pow2[OF assms] by blast
  have "key_index hash t k < length (slots t)" unfolding key_index_def using e by (rule mask_ht_less)
  with g ne e show "at_slot t k j"
    by (auto simp: get_slot_def intro: get_slot_loop_sound)
next
  assume a: "at_slot t k j"
  then have ne: "slots t \<noteq> []" by (rule at_slot_nonempty)
  then obtain e where e: "length (slots t) = 2 ^ e" using valid_pow2[OF assms] by blast
  have lt: "key_index hash t k < length (slots t)" unfolding key_index_def using e by (rule mask_ht_less)
  from assms a obtain d where d: "d \<le> max_hash_offset t" "(hash k + d) mod length (slots t) = j"
    unfolding valid_def by blast
  have "(key_index hash t k + d) mod length (slots t) = j"
    using d(2) by (simp add: key_index_mod[OF e] mod_add_left_eq)
  with a have "at_slot t k ((key_index hash t k + d) mod length (slots t))" by simp
  from get_slot_loop_complete[OF this _ e lt, of 0] d(1)
  obtain j' where j': "get_slot_loop t k (key_index hash t k) 0 = Some j'" by auto
  then have "at_slot t k j'" using e lt by (rule get_slot_loop_sound)
  with a have "j' = j" using at_slot_unique[OF assms] by blast
  with j' ne show "get_slot hash t k = Some j" by (simp add: get_slot_def)
qed

lemma get_slot_None_iff:
  assumes "valid hash t"
  shows "get_slot hash t k = None \<longleftrightarrow> (\<forall>j. \<not> at_slot t k j)"
  using get_slot_Some_iff[OF assms, of k] by (cases "get_slot hash t k") auto


section \<open>The unbounded walk and the insertion\<close>

lemma find_unused_run:
  "length ss = 2 ^ e \<Longrightarrow> i < length ss
   \<Longrightarrow> \<forall>d'<d. used (ss ! ((i + d') mod length ss))
   \<Longrightarrow> \<not> used (ss ! ((i + d) mod length ss))
   \<Longrightarrow> find_unused ss i off = Some ((i + d) mod length ss, off + d)"
proof (induction d arbitrary: i off)
  case 0
  then show ?case by (subst find_unused.simps) simp
next
  case (Suc d)
  let ?n = "length ss"
  let ?i' = "(i + 1) AND (?n - 1)"
  have i': "?i' = (i + 1) mod ?n"
    using and_pow2_mask[of "i + 1" e] Suc.prems(1) by simp
  have shift: "(?i' + x) mod ?n = (i + Suc x) mod ?n" for x
  proof -
    have "(?i' + x) mod ?n = ((i + 1) mod ?n + x) mod ?n" by (simp only: i')
    also have "\<dots> = (i + 1 + x) mod ?n" by (rule mod_add_left_eq)
    finally show ?thesis by simp
  qed
  have "(i + 1) mod ?n < ?n" by (rule mod_less_divisor) (use Suc.prems(2) in auto)
  then have lt: "?i' < ?n" by (simp only: i')
  have a: "\<forall>d'<d. used (ss ! ((?i' + d') mod ?n))"
    unfolding shift using Suc.prems(3) by auto
  have b: "\<not> used (ss ! ((?i' + d) mod ?n))"
    unfolding shift using Suc.prems(4) .
  have "used (ss ! i)" using Suc.prems(2,3) by (auto dest: spec[of _ 0])
  then have "find_unused ss i off = find_unused ss ?i' (off + 1)"
    by (subst find_unused.simps) simp
  also have "\<dots> = Some ((?i' + d) mod ?n, off + 1 + d)"
    by (rule Suc.IH[OF Suc.prems(1) lt a b])
  finally show ?case unfolding shift by simp
qed

lemma find_unused_total:
  assumes "length ss = 2 ^ e" "i < length ss" "j < length ss" "\<not> used (ss ! j)"
  shows "\<exists>d. find_unused ss i off = Some ((i + d) mod length ss, off + d)
             \<and> \<not> used (ss ! ((i + d) mod length ss))"
proof -
  let ?n = "length ss"
  let ?P = "\<lambda>d. \<not> used (ss ! ((i + d) mod ?n))"
  have "(i + (j + ?n - i)) mod ?n = j" using assms(2,3) by simp
  then have "?P (j + ?n - i)" using assms(4) by simp
  then have least: "?P (LEAST d. ?P d)" by (rule LeastI)
  have "\<forall>d'<(LEAST d. ?P d). used (ss ! ((i + d') mod ?n))"
    using not_less_Least by blast
  from find_unused_run[OF assms(1,2) this least] least show ?thesis by blast
qed

lemma exists_unused:
  assumes "length (filter P xs) < length xs"
  shows "\<exists>j<length xs. \<not> P (xs ! j)"
proof (rule ccontr)
  assume "\<not> ?thesis"
  then have "\<forall>x\<in>set xs. P x" by (auto simp: in_set_conv_nth)
  then have "filter P xs = xs" by simp
  with assms show False by simp
qed

lemma at_slot_place:
  "j < length (slots t) \<Longrightarrow> \<not> used (slots t ! j) \<Longrightarrow>
   at_slot (t\<lparr>slots := (slots t)[j := Slot_of k v], count := c, max_hash_offset := m\<rparr>) k' i
     \<longleftrightarrow> (i = j \<and> k' = k) \<or> at_slot t k' i"
  by (auto simp: at_slot_def Slot_of_def nth_list_update)

lemma filter_split_nth:
  assumes "i < length xs"
  shows "filter P xs = filter P (take i xs) @ (if P (xs ! i) then [xs ! i] else [])
                         @ filter P (drop (Suc i) xs)"
proof -
  have "xs = take i xs @ xs ! i # drop (Suc i) xs"
    using assms by (rule id_take_nth_drop)
  then have "filter P xs = filter P (take i xs @ xs ! i # drop (Suc i) xs)" by simp
  then show ?thesis by simp
qed

lemma filter_split_update:
  assumes "i < length xs"
  shows "filter P (xs[i := s]) = filter P (take i xs) @ (if P s then [s] else [])
                         @ filter P (drop (Suc i) xs)"
  using assms by (simp add: upd_conv_take_nth_drop)

lemma length_filter_place:
  assumes "j < length xs" "\<not> P (xs ! j)" "P s"
  shows "length (filter P (xs[j := s])) = length (filter P xs) + 1"
  using filter_split_nth[OF assms(1), of P] filter_split_update[OF assms(1), of P s] assms(2,3)
  by simp

lemma valid_place:
  assumes wf: "valid hash t" and j: "j < length (slots t)" "\<not> used (slots t ! j)"
    and d: "(hash k + d) mod length (slots t) = j" and new: "\<forall>i. \<not> at_slot t k i"
  shows "valid hash (t\<lparr>slots := (slots t)[j := Slot_of k v], count := count t + 1,
                     max_hash_offset := max (max_hash_offset t) d\<rparr>)"
    (is "valid hash ?t'")
proof -
  have at: "at_slot ?t' k' i \<longleftrightarrow> (i = j \<and> k' = k) \<or> at_slot t k' i" for k' i
    using j by (rule at_slot_place)
  have 1: "slots ?t' = [] \<or> (\<exists>e\<ge>3. length (slots ?t') = 2 ^ e)"
    using wf by (simp add: valid_def)
  have 2: "count ?t' = length (filter used (slots ?t'))"
    using wf length_filter_place[of j "slots t" used "Slot_of k v"] j by (simp add: valid_def Slot_of_def)
  have 3: "\<exists>d'\<le>max_hash_offset ?t'. (hash k' + d') mod length (slots ?t') = i"
    if "at_slot ?t' k' i" for k' i
  proof (cases "i = j \<and> k' = k")
    case True
    then show ?thesis using d by (intro exI[of _ d]) simp
  next
    case False
    with that have "at_slot t k' i" unfolding at by simp
    with wf obtain d' where "d' \<le> max_hash_offset t" "(hash k' + d') mod length (slots t) = i"
      unfolding valid_def by blast
    then show ?thesis by (intro exI[of _ d']) simp
  qed
  have 4: "i = i'" if "at_slot ?t' k' i" "at_slot ?t' k' i'" for k' i i'
    using that new at_slot_unique[OF wf, of k' i i'] unfolding at by auto
  show ?thesis unfolding valid_def using 1 2 3 4 by blast
qed

lemma insert_result:
  assumes wf: "valid hash t" and ne: "slots t \<noteq> []" and free: "count t < length (slots t)"
  shows "\<exists>j d. j < length (slots t) \<and> \<not> used (slots t ! j)
           \<and> (hash k + d) mod length (slots t) = j
           \<and> insert_nonexistent_norehash hash t k v =
               Some (t\<lparr>slots := (slots t)[j := Slot_of k v], count := count t + 1,
                       max_hash_offset := max (max_hash_offset t) d\<rparr>, j)"
proof -
  from wf ne obtain e where e: "length (slots t) = 2 ^ e" using valid_pow2 by blast
  have lt: "key_index hash t k < length (slots t)"
    unfolding key_index_def using e by (rule mask_ht_less)
  from wf free have "length (filter used (slots t)) < length (slots t)" by (simp add: valid_def)
  then obtain j0 where j0: "j0 < length (slots t)" "\<not> used (slots t ! j0)"
    using exists_unused by blast
  from find_unused_total[OF e lt j0, of 0] obtain d where
    f: "find_unused (slots t) (key_index hash t k) 0 =
          Some ((key_index hash t k + d) mod length (slots t), d)"
    and u: "\<not> used (slots t ! ((key_index hash t k + d) mod length (slots t)))"
    by auto
  let ?j = "(key_index hash t k + d) mod length (slots t)"
  have jd: "(hash k + d) mod length (slots t) = ?j"
    by (simp add: key_index_mod[OF e] mod_add_left_eq)
  have jlt: "?j < length (slots t)" using ne by simp
  have "insert_nonexistent_norehash hash t k v =
          Some (t\<lparr>slots := (slots t)[?j := Slot_of k v], count := count t + 1,
                  max_hash_offset := max (max_hash_offset t) d\<rparr>, ?j)"
    using ne f by (simp add: insert_nonexistent_norehash_def max_def)
  with jlt u jd show ?thesis by blast
qed


section \<open>Lookup after the change of one slot\<close>

lemma validI:
  assumes "slots t = [] \<or> (\<exists>e\<ge>3. length (slots t) = 2 ^ e)"
    and "count t = length (filter used (slots t))"
    and "\<And>j k. at_slot t k j \<Longrightarrow> \<exists>d\<le>max_hash_offset t. (hash k + d) mod length (slots t) = j"
    and "\<And>i j k. at_slot t k i \<Longrightarrow> at_slot t k j \<Longrightarrow> i = j"
  shows "valid hash t"
  unfolding valid_def using assms by blast

lemma valid_cap: "valid hash t \<Longrightarrow> slots t = [] \<or> (\<exists>e\<ge>3. length (slots t) = 2 ^ e)"
  by (simp add: valid_def)

lemma valid_count: "valid hash t \<Longrightarrow> count t = length (filter used (slots t))"
  by (simp add: valid_def)

lemma valid_disp:
  "valid hash t \<Longrightarrow> at_slot t k j \<Longrightarrow> \<exists>d\<le>max_hash_offset t. (hash k + d) mod length (slots t) = j"
  unfolding valid_def by blast

lemma get_Some_iff:
  assumes "valid hash t"
  shows "get hash t k = Some v \<longleftrightarrow> (\<exists>j. at_slot t k j \<and> val (kv (slots t ! j)) = v)"
  using get_slot_Some_iff[OF assms, of k] by (auto simp: get_def)

lemma get_None_iff:
  assumes "valid hash t"
  shows "get hash t k = None \<longleftrightarrow> (\<forall>j. \<not> at_slot t k j)"
  using get_slot_None_iff[OF assms, of k] by (simp add: get_def)

lemma option_eq_iff: "(\<And>v. a = Some v \<longleftrightarrow> b = Some v) \<Longrightarrow> a = b"
  by (cases a; cases b) auto

lemma get_place:
  assumes wf: "valid hash t" and j: "j < length (slots t)" "\<not> used (slots t ! j)"
    and d: "(hash k + d) mod length (slots t) = j" and new: "\<forall>i. \<not> at_slot t k i"
  shows "get hash (t\<lparr>slots := (slots t)[j := Slot_of k v], count := count t + 1,
                     max_hash_offset := max (max_hash_offset t) d\<rparr>) k'
         = (if k' = k then Some v else get hash t k')"
    (is "get hash ?t' k' = _")
proof (rule option_eq_iff)
  fix w
  have wf': "valid hash ?t'" using assms by (rule valid_place)
  have at: "at_slot ?t' k' i \<longleftrightarrow> (i = j \<and> k' = k) \<or> at_slot t k' i" for i
    using j by (rule at_slot_place)
  have notj: "\<not> at_slot t k' j" using j by (simp add: at_slot_def)
  show "get hash ?t' k' = Some w \<longleftrightarrow> (if k' = k then Some v else get hash t k') = Some w"
    unfolding get_Some_iff[OF wf'] at
    using new notj j(1) by (auto simp: get_Some_iff[OF wf] nth_list_update Slot_of_def)
qed

text \<open>Overwriting the value of a stored key.\<close>

lemma at_slot_overwrite:
  assumes "i < length (slots t)"
  shows "at_slot (t\<lparr>slots := (slots t)[i := (slots t ! i)\<lparr>kv := (kv (slots t ! i))\<lparr>val := v\<rparr>\<rparr>]\<rparr>) k' i'
     \<longleftrightarrow> at_slot t k' i'"
  using assms by (cases "i' = i") (simp_all add: at_slot_def)

lemma length_filter_same:
  assumes "i < length xs" "P s = P (xs ! i)"
  shows "length (filter P (xs[i := s])) = length (filter P xs)"
  using filter_split_nth[OF assms(1), of P] filter_split_update[OF assms(1), of P s] assms(2)
  by simp

lemma valid_overwrite:
  assumes wf: "valid hash t" and i: "i < length (slots t)"
  shows "valid hash (t\<lparr>slots := (slots t)[i := (slots t ! i)\<lparr>kv := (kv (slots t ! i))\<lparr>val := v\<rparr>\<rparr>]\<rparr>)"
    (is "valid hash ?t'")
proof -
  have 2: "count ?t' = length (filter used (slots ?t'))"
    using wf length_filter_same[of i "slots t" used "(slots t ! i)\<lparr>kv := (kv (slots t ! i))\<lparr>val := v\<rparr>\<rparr>"] i
    by (simp add: valid_def)
  show ?thesis
  proof (rule validI)
    show "slots ?t' = [] \<or> (\<exists>e\<ge>3. length (slots ?t') = 2 ^ e)"
      using valid_cap[OF wf] by simp
    show "count ?t' = length (filter used (slots ?t'))" by (rule 2)
    show "\<exists>d\<le>max_hash_offset ?t'. (hash k + d) mod length (slots ?t') = j"
      if "at_slot ?t' k j" for j k
      using valid_disp[OF wf, of k j] that unfolding at_slot_overwrite[OF i] by simp
    show "i' = j" if "at_slot ?t' k i'" "at_slot ?t' k j" for i' j k
      using at_slot_unique[OF wf, of k i' j] that unfolding at_slot_overwrite[OF i] by simp
  qed
qed

lemma get_overwrite:
  assumes wf: "valid hash t" and i: "at_slot t k i"
  shows "get hash (t\<lparr>slots := (slots t)[i := (slots t ! i)\<lparr>kv := (kv (slots t ! i))\<lparr>val := v\<rparr>\<rparr>]\<rparr>) k'
         = (if k' = k then Some v else get hash t k')"
    (is "get hash ?t' k' = _")
proof (rule option_eq_iff)
  fix w
  have il: "i < length (slots t)" using i by (simp add: at_slot_def)
  have wf': "valid hash ?t'" using wf il by (rule valid_overwrite)
  have uniq: "at_slot t k i' \<Longrightarrow> i' = i" for i' using at_slot_unique[OF wf _ i] .
  have other: "at_slot t k' i' \<Longrightarrow> k' \<noteq> k \<Longrightarrow> i' \<noteq> i" for i'
    using i by (auto simp: at_slot_def)
  have val_i: "val (kv (slots ?t' ! i)) = v" using il by simp
  have val_o: "i' \<noteq> i \<Longrightarrow> slots ?t' ! i' = slots t ! i'" for i' by simp
  have L: "get hash ?t' k' = Some w \<longleftrightarrow> (\<exists>j. at_slot t k' j \<and> val (kv (slots ?t' ! j)) = w)"
    unfolding get_Some_iff[OF wf'] at_slot_overwrite[OF il] ..
  show "get hash ?t' k' = Some w \<longleftrightarrow> (if k' = k then Some v else get hash t k') = Some w"
  proof (cases "k' = k")
    case True
    have "(\<exists>j. at_slot t k j \<and> val (kv (slots ?t' ! j)) = w) \<longleftrightarrow> v = w"
    proof
      assume "\<exists>j. at_slot t k j \<and> val (kv (slots ?t' ! j)) = w"
      then obtain j where j: "at_slot t k j" "val (kv (slots ?t' ! j)) = w" by blast
      from uniq[OF j(1)] j(2) val_i show "v = w" by simp
    next
      assume "v = w"
      with i val_i show "\<exists>j. at_slot t k j \<and> val (kv (slots ?t' ! j)) = w" by blast
    qed
    with True show ?thesis unfolding L by simp
  next
    case False
    have "(\<exists>j. at_slot t k' j \<and> val (kv (slots ?t' ! j)) = w)
          \<longleftrightarrow> (\<exists>j. at_slot t k' j \<and> val (kv (slots t ! j)) = w)"
    proof (rule ex_cong1, rule conj_cong[OF refl])
      fix j assume "at_slot t k' j"
      then have "slots ?t' ! j = slots t ! j"
        using other[OF _ False] val_o[of j] by blast
      then show "(val (kv (slots ?t' ! j)) = w) = (val (kv (slots t ! j)) = w)"
        by (simp only:)
    qed
    with False show ?thesis unfolding L by (simp add: get_Some_iff[OF wf])
  qed
qed

text \<open>Emptying the slot of a stored key.\<close>

lemma at_slot_erase:
  "i < length (slots t) \<Longrightarrow>
   at_slot (t\<lparr>slots := (slots t)[i := Slot_empty], count := c\<rparr>) k' i'
     \<longleftrightarrow> i' \<noteq> i \<and> at_slot t k' i'"
  by (auto simp: at_slot_def nth_list_update Slot_empty_def)

lemma length_filter_erase:
  assumes "i < length xs" "P (xs ! i)" "\<not> P s"
  shows "length (filter P (xs[i := s])) = length (filter P xs) - 1"
    and "0 < length (filter P xs)"
  using filter_split_nth[OF assms(1), of P] filter_split_update[OF assms(1), of P s] assms(2,3)
  by simp_all

lemma valid_erase:
  assumes wf: "valid hash t" and i: "at_slot t k i"
  shows "valid hash (t\<lparr>slots := (slots t)[i := Slot_empty], count := count t - 1\<rparr>)"
    (is "valid hash ?t'")
proof -
  have il: "i < length (slots t)" and iu: "used (slots t ! i)" using i by (simp_all add: at_slot_def)
  have at: "at_slot ?t' k' i' \<longleftrightarrow> i' \<noteq> i \<and> at_slot t k' i'" for k' i'
    using il by (rule at_slot_erase)
  have 2: "count ?t' = length (filter used (slots ?t'))"
    using wf length_filter_erase(1)[of i "slots t" used Slot_empty] il iu
    by (simp add: valid_def Slot_empty_def)
  show ?thesis
  proof (rule validI)
    show "slots ?t' = [] \<or> (\<exists>e\<ge>3. length (slots ?t') = 2 ^ e)"
      using valid_cap[OF wf] by simp
    show "count ?t' = length (filter used (slots ?t'))" by (rule 2)
    show "\<exists>d\<le>max_hash_offset ?t'. (hash k + d) mod length (slots ?t') = j"
      if "at_slot ?t' k j" for j k
      using valid_disp[OF wf, of k j] that unfolding at by simp
    show "i' = j" if "at_slot ?t' k i'" "at_slot ?t' k j" for i' j k
      using at_slot_unique[OF wf, of k i' j] that unfolding at by simp
  qed
qed

lemma get_erase:
  assumes wf: "valid hash t" and i: "at_slot t k i"
  shows "get hash (t\<lparr>slots := (slots t)[i := Slot_empty], count := count t - 1\<rparr>) k'
         = (if k' = k then None else get hash t k')"
    (is "get hash ?t' k' = _")
proof (rule option_eq_iff)
  fix w
  have il: "i < length (slots t)" using i by (simp add: at_slot_def)
  have wf': "valid hash ?t'" using wf i by (rule valid_erase)
  have at: "at_slot ?t' k' i' \<longleftrightarrow> i' \<noteq> i \<and> at_slot t k' i'" for i'
    using il by (rule at_slot_erase)
  have uniq: "at_slot t k i' \<Longrightarrow> i' = i" for i' using at_slot_unique[OF wf _ i] .
  have other: "at_slot t k' i' \<Longrightarrow> k' \<noteq> k \<Longrightarrow> i' \<noteq> i" for i'
    using i by (auto simp: at_slot_def)
  have val_o: "i' \<noteq> i \<Longrightarrow> slots ?t' ! i' = slots t ! i'" for i' by simp
  have L: "get hash ?t' k' = Some w
           \<longleftrightarrow> (\<exists>j. (j \<noteq> i \<and> at_slot t k' j) \<and> val (kv (slots ?t' ! j)) = w)"
    unfolding get_Some_iff[OF wf'] at ..
  show "get hash ?t' k' = Some w \<longleftrightarrow> (if k' = k then None else get hash t k') = Some w"
  proof (cases "k' = k")
    case True
    have "\<not> (\<exists>j. (j \<noteq> i \<and> at_slot t k j) \<and> val (kv (slots ?t' ! j)) = w)"
      using uniq by blast
    with True show ?thesis unfolding L by simp
  next
    case False
    have "(\<exists>j. (j \<noteq> i \<and> at_slot t k' j) \<and> val (kv (slots ?t' ! j)) = w)
          \<longleftrightarrow> (\<exists>j. at_slot t k' j \<and> val (kv (slots t ! j)) = w)"
    proof (rule ex_cong1, rule conj_cong)
      fix j show "(j \<noteq> i \<and> at_slot t k' j) = at_slot t k' j"
        using other[OF _ False] by blast
    next
      fix j assume "at_slot t k' j"
      then have "slots ?t' ! j = slots t ! j"
        using other[OF _ False] val_o[of j] by blast
      then show "(val (kv (slots ?t' ! j)) = w) = (val (kv (slots t ! j)) = w)"
        by (simp only:)
    qed
    with False show ?thesis unfolding L by (simp add: get_Some_iff[OF wf])
  qed
qed


section \<open>Rehash\<close>

lemma get_Some_set:
  assumes "valid hash t"
  shows "get hash t k = Some v
         \<longleftrightarrow> (\<exists>s\<in>set (slots t). used s \<and> key (kv s) = k \<and> val (kv s) = v)"
proof -
  have "(\<exists>j. at_slot t k j \<and> val (kv (slots t ! j)) = v)
        \<longleftrightarrow> (\<exists>s\<in>set (slots t). used s \<and> key (kv s) = k \<and> val (kv s) = v)"
  proof
    assume "\<exists>j. at_slot t k j \<and> val (kv (slots t ! j)) = v"
    then obtain j where j: "at_slot t k j" "val (kv (slots t ! j)) = v" by blast
    then have "slots t ! j \<in> set (slots t)" by (simp add: at_slot_def)
    with j show "\<exists>s\<in>set (slots t). used s \<and> key (kv s) = k \<and> val (kv s) = v"
      unfolding at_slot_def by blast
  next
    assume "\<exists>s\<in>set (slots t). used s \<and> key (kv s) = k \<and> val (kv s) = v"
    then obtain s where s: "s \<in> set (slots t)" "used s" "key (kv s) = k" "val (kv s) = v"
      by blast
    from s(1) obtain j where "j < length (slots t)" "slots t ! j = s"
      unfolding in_set_conv_nth by blast
    with s(2,3,4) have "at_slot t k j \<and> val (kv (slots t ! j)) = v"
      by (simp add: at_slot_def)
    then show "\<exists>j. at_slot t k j \<and> val (kv (slots t ! j)) = v" ..
  qed
  then show ?thesis unfolding get_Some_iff[OF assms] .
qed

lemma reinsert_valid:
  assumes "valid hash t" "slots t \<noteq> []"
    and "count t + length (filter used old) < length (slots t)"
    and "distinct (map (\<lambda>s. key (kv s)) (filter used old))"
    and "\<forall>s\<in>set old. used s \<longrightarrow> (\<forall>j. \<not> at_slot t (key (kv s)) j)"
  shows "\<exists>t'. reinsert hash old t = Some t' \<and> valid hash t'
           \<and> length (slots t') = length (slots t)
           \<and> count t' = count t + length (filter used old)
           \<and> (\<forall>k v. get hash t' k = Some v \<longleftrightarrow>
                 get hash t k = Some v
                 \<or> (\<exists>s\<in>set old. used s \<and> key (kv s) = k \<and> val (kv s) = v))"
  using assms
proof (induction old arbitrary: t)
  case Nil
  then show ?case by simp
next
  case (Cons s old)
  show ?case
  proof (cases "used s")
    case False
    have "\<exists>t'. reinsert hash old t = Some t' \<and> valid hash t'
           \<and> length (slots t') = length (slots t)
           \<and> count t' = count t + length (filter used old)
           \<and> (\<forall>k v. get hash t' k = Some v \<longleftrightarrow>
                 get hash t k = Some v
                 \<or> (\<exists>s\<in>set old. used s \<and> key (kv s) = k \<and> val (kv s) = v))"
      using Cons.prems False by (intro Cons.IH) simp_all
    then obtain t' where t': "reinsert hash old t = Some t'" "valid hash t'"
      "length (slots t') = length (slots t)" "count t' = count t + length (filter used old)"
      "\<And>k v. get hash t' k = Some v \<longleftrightarrow>
                 get hash t k = Some v
                 \<or> (\<exists>s\<in>set old. used s \<and> key (kv s) = k \<and> val (kv s) = v)"
      by blast
    have "(\<exists>s'\<in>set (s # old). used s' \<and> key (kv s') = k \<and> val (kv s') = v)
          \<longleftrightarrow> (\<exists>s'\<in>set old. used s' \<and> key (kv s') = k \<and> val (kv s') = v)" for k v
      using False by auto
    with t' False show ?thesis by simp
  next
    case True
    let ?k = "key (kv s)" and ?v = "val (kv s)"
    have free: "count t < length (slots t)" using Cons.prems(3) by simp
    have new: "\<forall>i. \<not> at_slot t ?k i" using Cons.prems(5) True by simp
    from insert_result[OF Cons.prems(1,2) free, of ?k ?v] obtain j d where
      j: "j < length (slots t)" "\<not> used (slots t ! j)"
      and d: "(hash ?k + d) mod length (slots t) = j"
      and ins: "insert_nonexistent_norehash hash t ?k ?v =
               Some (t\<lparr>slots := (slots t)[j := Slot_of ?k ?v], count := count t + 1,
                       max_hash_offset := max (max_hash_offset t) d\<rparr>, j)"
      by blast
    define t1 where "t1 = t\<lparr>slots := (slots t)[j := Slot_of ?k ?v], count := count t + 1,
                       max_hash_offset := max (max_hash_offset t) d\<rparr>"
    have wf1: "valid hash t1" unfolding t1_def using Cons.prems(1) j d new by (rule valid_place)
    have get1: "get hash t1 k' = (if k' = ?k then Some ?v else get hash t k')" for k'
      unfolding t1_def using Cons.prems(1) j d new by (rule get_place)
    have at1: "at_slot t1 k' i \<longleftrightarrow> (i = j \<and> k' = ?k) \<or> at_slot t k' i" for k' i
      unfolding t1_def using j by (rule at_slot_place)
    have len1: "length (slots t1) = length (slots t)" by (simp add: t1_def)
    have cnt1: "count t1 = count t + 1" by (simp add: t1_def)
    have ne1: "slots t1 \<noteq> []" using Cons.prems(2) len1 by auto
    have room1: "count t1 + length (filter used old) < length (slots t1)"
      using Cons.prems(3) True by (simp add: len1 cnt1)
    have dist1: "distinct (map (\<lambda>s. key (kv s)) (filter used old))"
      using Cons.prems(4) True by simp
    have fresh: "?k \<notin> (\<lambda>s. key (kv s)) ` set (filter used old)"
      using Cons.prems(4) True by simp
    have new1: "\<forall>s'\<in>set old. used s' \<longrightarrow> (\<forall>j. \<not> at_slot t1 (key (kv s')) j)"
    proof (intro ballI impI allI)
      fix s' j' assume s': "s' \<in> set old" "used s'"
      then have "s' \<in> set (filter used old)" by simp
      then have "key (kv s') \<in> (\<lambda>s. key (kv s)) ` set (filter used old)" by (rule imageI)
      with fresh have "key (kv s') \<noteq> ?k" by metis
      moreover have "\<not> at_slot t (key (kv s')) j'" using Cons.prems(5) s' by simp
      ultimately show "\<not> at_slot t1 (key (kv s')) j'" by (simp add: at1)
    qed
    from Cons.IH[OF wf1 ne1 room1 dist1 new1]
    obtain t' where t': "reinsert hash old t1 = Some t'" "valid hash t'"
      "length (slots t') = length (slots t1)" "count t' = count t1 + length (filter used old)"
      "\<And>k v. get hash t' k = Some v \<longleftrightarrow>
                 get hash t1 k = Some v
                 \<or> (\<exists>s\<in>set old. used s \<and> key (kv s) = k \<and> val (kv s) = v)"
      by blast
    have none: "get hash t ?k = None" using new by (simp add: get_None_iff[OF Cons.prems(1)])
    have g: "get hash t' k = Some v \<longleftrightarrow>
               get hash t k = Some v
               \<or> (\<exists>s'\<in>set (s # old). used s' \<and> key (kv s') = k \<and> val (kv s') = v)" for k v
    proof -
      have "get hash t1 k = Some v \<longleftrightarrow> (k = ?k \<and> v = ?v) \<or> get hash t k = Some v"
        using none by (auto simp: get1)
      then show ?thesis unfolding t'(5) using True by auto
    qed
    have r: "reinsert hash (s # old) t = Some t'"
      using True ins t'(1) by (simp add: t1_def)
    show ?thesis
      using r t'(2) t'(3) t'(4) g True by (simp add: len1 cnt1)
  qed
qed


lemma rehash_fail:
  "\<not> alloc (new_size t) \<Longrightarrow> rehash alloc hash t = Some (Inl (Bad_alloc, clear t))"
  by (simp add: rehash_def new_size_def Let_def)

lemma valid_fresh:
  assumes "3 \<le> e"
  shows "valid hash (t\<lparr>slots := replicate (2 ^ e) Slot_empty, count := 0, max_hash_offset := 0\<rparr>)"
    (is "valid hash ?t0")
proof (rule validI)
  show "slots ?t0 = [] \<or> (\<exists>e\<ge>3. length (slots ?t0) = 2 ^ e)"
    using assms by auto
  show "count ?t0 = length (filter used (slots ?t0))"
    by (simp add: Slot_empty_def)
  have no: "\<not> at_slot ?t0 k j" for k j
  proof
    assume a: "at_slot ?t0 k j"
    then have lt: "j < 2 ^ e" by (simp add: at_slot_def)
    from a have "used (slots ?t0 ! j)" unfolding at_slot_def by blast
    with lt show False by (simp add: Slot_empty_def)
  qed
  show "\<exists>d\<le>max_hash_offset ?t0. (hash k + d) mod length (slots ?t0) = j"
    if "at_slot ?t0 k j" for j k using that no by blast
  show "i = j" if "at_slot ?t0 k i" "at_slot ?t0 k j" for i j k using that no by blast
qed

lemma new_size_pow2:
  assumes "valid hash t"
  shows "\<exists>e\<ge>3. new_size t = 2 ^ e"
proof (cases "slots t = []")
  case True
  have "(8::nat) = 2 ^ 3" by simp
  with True show ?thesis unfolding new_size_def by (intro exI[of _ 3]) simp
next
  case False
  with valid_cap[OF assms] obtain e where e: "3 \<le> e" "length (slots t) = 2 ^ e" by blast
  then have "new_size t = 2 ^ Suc e" using False by (simp add: new_size_def)
  with e(1) show ?thesis by (intro exI[of _ "Suc e"]) simp
qed

lemma rehash_ok:
  assumes wf: "valid hash t" and al: "alloc (new_size t)"
  shows "\<exists>t'. rehash alloc hash t = Some (Inr t') \<and> valid hash t'
           \<and> length (slots t') = new_size t \<and> count t' = count t
           \<and> (\<forall>k. get hash t' k = get hash t k)"
proof -
  from new_size_pow2[OF wf] obtain e where e: "3 \<le> e" "new_size t = 2 ^ e" by blast
  define t0 where "t0 = t\<lparr>slots := replicate (2 ^ e) Slot_empty, count := 0, max_hash_offset := 0\<rparr>"
  have wf0: "valid hash t0" unfolding t0_def using e(1) by (rule valid_fresh)
  have len0: "length (slots t0) = 2 ^ e" by (simp add: t0_def)
  have ne0: "slots t0 \<noteq> []" using len0 by auto
  have no: "\<not> at_slot t0 k j" for k j
  proof
    assume a: "at_slot t0 k j"
    then have lt: "j < 2 ^ e" by (simp add: at_slot_def t0_def)
    from a have "used (slots t0 ! j)" unfolding at_slot_def by blast
    with lt show False by (simp add: Slot_empty_def t0_def)
  qed
  have get0: "get hash t0 k = None" for k using no by (simp add: get_None_iff[OF wf0])
  have "length (filter used (slots t)) \<le> length (slots t)" by (rule length_filter_le)
  moreover have "length (slots t) < new_size t" by (simp add: new_size_def)
  ultimately have "length (filter used (slots t)) < new_size t" by (rule le_less_trans)
  then have room: "count t0 + length (filter used (slots t)) < length (slots t0)"
    by (simp add: len0 e(2) t0_def)
  have dist: "distinct (map (\<lambda>s. key (kv s)) (filter used (slots t)))"
  proof (rule distinct_filter_nthI)
    fix i j assume "i < length (slots t)" "j < length (slots t)" "used (slots t ! i)"
      "used (slots t ! j)" "key (kv (slots t ! i)) = key (kv (slots t ! j))"
    then have "at_slot t (key (kv (slots t ! i))) i" "at_slot t (key (kv (slots t ! i))) j"
      by (simp_all add: at_slot_def)
    then show "i = j" by (rule at_slot_unique[OF wf])
  qed
  have fresh: "\<forall>s\<in>set (slots t). used s \<longrightarrow> (\<forall>j. \<not> at_slot t0 (key (kv s)) j)"
    using no by blast
  from reinsert_valid[OF wf0 ne0 room dist fresh]
  obtain t' where t': "reinsert hash (slots t) t0 = Some t'" "valid hash t'"
      "length (slots t') = length (slots t0)"
      "count t' = count t0 + length (filter used (slots t))"
      "\<And>k v. get hash t' k = Some v \<longleftrightarrow>
                 get hash t0 k = Some v
                 \<or> (\<exists>s\<in>set (slots t). used s \<and> key (kv s) = k \<and> val (kv s) = v)"
    by blast
  have "get hash t' k = get hash t k" for k
    by (rule option_eq_iff) (simp add: t'(5) get0 get_Some_set[OF wf])
  moreover have "rehash alloc hash t = Some (Inr t')"
  proof -
    have "(clear t)\<lparr>slots := resize (new_size t) (slots (clear t))\<rparr> = t0"
      unfolding e(2) by (cases t) (simp add: t0_def clear_def resize_def)
    with al t'(1) show ?thesis
      by (simp add: rehash_def Let_def new_size_def)
  qed
  moreover have "count t' = count t" using t'(4) valid_count[OF wf] by (simp add: t0_def)
  moreover have "length (slots t') = new_size t" using t'(3) len0 e(2) by simp
  ultimately show ?thesis using t'(2) by blast
qed

section \<open>The operations \<open>remove\<close> and \<open>set\<close>\<close>

text \<open>The effect of \<open>remove_ht\<close>.\<close>

lemma remove_ht_valid:
  assumes wf: "valid hash t"
  shows "valid hash (remove_ht hash t k)"
proof (cases "get_slot hash t k")
  case None
  then show ?thesis using wf by (simp add: remove_ht_def)
next
  case (Some i)
  then have at: "at_slot t k i" using wf by (simp add: get_slot_Some_iff)
  then have "0 < length (filter used (slots t))"
    using length_filter_erase(2)[of i "slots t" used Slot_empty]
    by (simp add: at_slot_def Slot_empty_def)
  then have "count t \<noteq> 0" using valid_count[OF wf] by simp
  then have "remove_ht hash t k = t\<lparr>slots := (slots t)[i := Slot_empty], count := count t - 1\<rparr>"
    using Some by (simp add: remove_ht_def)
  then show ?thesis using valid_erase[OF wf at] by simp
qed

lemma remove_ht_get:
  assumes wf: "valid hash t"
  shows "get hash (remove_ht hash t k) k' = (if k' = k then None else get hash t k')"
proof (cases "get_slot hash t k")
  case None
  then have "get hash t k = None" by (simp add: get_def)
  with None show ?thesis by (simp add: remove_ht_def)
next
  case (Some i)
  then have at: "at_slot t k i" using wf by (simp add: get_slot_Some_iff)
  then have "0 < length (filter used (slots t))"
    using length_filter_erase(2)[of i "slots t" used Slot_empty]
    by (simp add: at_slot_def Slot_empty_def)
  then have "count t \<noteq> 0" using valid_count[OF wf] by simp
  then have "remove_ht hash t k = t\<lparr>slots := (slots t)[i := Slot_empty], count := count t - 1\<rparr>"
    using Some by (simp add: remove_ht_def)
  then show ?thesis using get_erase[OF wf at] by simp
qed


lemma insert_new:
  assumes wf: "valid hash t" and ne: "slots t \<noteq> []" and free: "count t < length (slots t)"
    and new: "get hash t k = None"
  shows "\<exists>t' i. insert_nonexistent_norehash hash t k v = Some (t', i) \<and> valid hash t'
           \<and> at_slot t' k i
           \<and> (\<forall>k'. get hash t' k' = (if k' = k then Some v else get hash t k'))
           \<and> length (slots t') = length (slots t) \<and> count t' = count t + 1
           \<and> max_hash_offset t \<le> max_hash_offset t'"
proof -
  have new': "\<forall>i. \<not> at_slot t k i" using new by (simp add: get_None_iff[OF wf])
  from insert_result[OF wf ne free, of k v] obtain j d where
    j: "j < length (slots t)" "\<not> used (slots t ! j)"
    and d: "(hash k + d) mod length (slots t) = j"
    and ins: "insert_nonexistent_norehash hash t k v =
             Some (t\<lparr>slots := (slots t)[j := Slot_of k v], count := count t + 1,
                     max_hash_offset := max (max_hash_offset t) d\<rparr>, j)"
    by blast
  define t1 where "t1 = t\<lparr>slots := (slots t)[j := Slot_of k v], count := count t + 1,
                     max_hash_offset := max (max_hash_offset t) d\<rparr>"
  have "valid hash t1" unfolding t1_def using wf j d new' by (rule valid_place)
  moreover have "get hash t1 k' = (if k' = k then Some v else get hash t k')" for k'
    unfolding t1_def using wf j d new' by (rule get_place)
  moreover have "at_slot t1 k j"
    unfolding t1_def at_slot_place[OF j] by simp
  moreover have "length (slots t1) = length (slots t)" "count t1 = count t + 1"
    "max_hash_offset t \<le> max_hash_offset t1" by (simp_all add: t1_def)
  moreover have "insert_nonexistent_norehash hash t k v = Some (t1, j)"
    using ins by (simp add: t1_def)
  ultimately show ?thesis by blast
qed

lemma new_size_gt: "length (slots t) < new_size t"
  by (simp add: new_size_def)

lemma set_ht_cases:
  assumes wf: "valid hash t"
  shows "(\<exists>t' i. set_ht alloc hash t k v = Some (Inr (t', i)) \<and> valid hash t' \<and> at_slot t' k i
            \<and> (\<forall>k'. get hash t' k' = (if k' = k then Some v else get hash t k'))
            \<and> length (slots t') =
                (if get_slot hash t k = None \<and> should_rehash t then new_size t
                 else length (slots t))
            \<and> count t' = (if get_slot hash t k = None then count t + 1 else count t))
         \<or> (set_ht alloc hash t k v = Some (Inl (Bad_alloc, clear t))
            \<and> get_slot hash t k = None \<and> should_rehash t \<and> \<not> alloc (new_size t))"
proof (cases "get_slot hash t k")
  case (Some i)
  then have at: "at_slot t k i" using wf by (simp add: get_slot_Some_iff)
  then have il: "i < length (slots t)" by (simp add: at_slot_def)
  define t' where "t' = t\<lparr>slots := (slots t)[i := (slots t ! i)\<lparr>kv := (kv (slots t ! i))\<lparr>val := v\<rparr>\<rparr>]\<rparr>"
  have "set_ht alloc hash t k v = Some (Inr (t', i))"
    using Some by (simp add: set_ht_def t'_def)
  moreover have "valid hash t'" unfolding t'_def using wf il by (rule valid_overwrite)
  moreover have "at_slot t' k i" unfolding t'_def at_slot_overwrite[OF il] by (rule at)
  moreover have "get hash t' k' = (if k' = k then Some v else get hash t k')" for k'
    unfolding t'_def using wf at by (rule get_overwrite)
  moreover have "length (slots t') = length (slots t)" "count t' = count t"
    by (simp_all add: t'_def)
  ultimately show ?thesis using Some by auto
next
  case None
  then have gnone: "get hash t k = None" by (simp add: get_def)
  show ?thesis
  proof (cases "should_rehash t")
    case False
    then have ne: "slots t \<noteq> []" and "count t \<le> length (slots t) * 3 div 4"
      by (simp_all add: should_rehash_def)
    then have free: "count t < length (slots t)" by (cases "slots t") auto
    from insert_new[OF wf ne free gnone, of v] obtain t' i where
      "insert_nonexistent_norehash hash t k v = Some (t', i)" "valid hash t'" "at_slot t' k i"
      "\<forall>k'. get hash t' k' = (if k' = k then Some v else get hash t k')"
      "length (slots t') = length (slots t)" "count t' = count t + 1"
      by blast
    moreover from this(1) have "set_ht alloc hash t k v = Some (Inr (t', i))"
      using None False by (simp add: set_ht_def)
    ultimately show ?thesis using None False by auto
  next
    case True
    show ?thesis
    proof (cases "alloc (new_size t)")
      case False
      then have "set_ht alloc hash t k v = Some (Inl (Bad_alloc, clear t))"
        using None True by (simp add: set_ht_def rehash_fail)
      with None True False show ?thesis by simp
    next
      case al: True
      from rehash_ok[of hash t alloc, OF wf al] obtain t1 where
        t1: "rehash alloc hash t = Some (Inr t1)" "valid hash t1"
        "length (slots t1) = new_size t" "count t1 = count t" "\<forall>k. get hash t1 k = get hash t k"
        by blast
      have ne1: "slots t1 \<noteq> []" using t1(3) new_size_gt[of t] by auto
      have "count t \<le> length (slots t)" using valid_count[OF wf] by simp
      then have free1: "count t1 < length (slots t1)"
        using t1(3,4) new_size_gt[of t] by simp
      have gnone1: "get hash t1 k = None" using t1(5) gnone by simp
      from insert_new[OF t1(2) ne1 free1 gnone1, of v] obtain t' i where
        t': "insert_nonexistent_norehash hash t1 k v = Some (t', i)" "valid hash t'" "at_slot t' k i"
        "\<forall>k'. get hash t' k' = (if k' = k then Some v else get hash t1 k')"
        "length (slots t') = length (slots t1)" "count t' = count t1 + 1"
        by blast
      have "set_ht alloc hash t k v = Some (Inr (t', i))"
        using None True t1(1) t'(1) by (simp add: set_ht_def)
      moreover have "\<forall>k'. get hash t' k' = (if k' = k then Some v else get hash t k')"
        using t'(4) t1(5) by simp
      ultimately show ?thesis using None True t'(2,3,5,6) t1(3,4) by auto
    qed
  qed
qed


section \<open>The sizing constructor\<close>

lemma grow_cap_total:
  "3 \<le> e \<Longrightarrow> e \<le> 63 \<Longrightarrow> m \<le> 2 ^ 63
   \<Longrightarrow> \<exists>e'. e \<le> e' \<and> e' \<le> 63 \<and> grow_cap (2 ^ e) m = Some (2 ^ e') \<and> m \<le> 2 ^ e'
          \<and> (e' = e \<or> 2 ^ (e' - 1) < m)"
proof (induction "63 - e" arbitrary: e)
  case 0
  then have e: "e = 63" by simp
  have "grow_cap (2 ^ 63) m = Some (2 ^ 63)"
    using "0.prems"(3) by (subst grow_cap.simps) simp
  with "0.prems"(3) show ?case unfolding e by blast
next
  case (Suc n)
  show ?case
  proof (cases "(2::nat) ^ e < m")
    case False
    then have "grow_cap (2 ^ e) m = Some (2 ^ e)" by (subst grow_cap.simps) simp
    with False Suc.prems show ?thesis by (intro exI[of _ e]) simp
  next
    case True
    have e63: "e < 63" using Suc.hyps(2) by simp
    then have "(2::nat) ^ Suc e < 2 ^ 64" by (intro power_strict_increasing) simp_all
    then have "(2::nat) ^ e * 2 mod 2 ^ 64 = 2 ^ Suc e" by simp
    with True have step: "grow_cap (2 ^ e) m = grow_cap (2 ^ Suc e) m"
      by (subst grow_cap.simps) simp
    have "n = 63 - Suc e" using Suc.hyps(2) by simp
    from Suc.hyps(1)[OF this] Suc.prems e63 obtain e' where
      e': "Suc e \<le> e'" "e' \<le> 63" "grow_cap (2 ^ Suc e) m = Some (2 ^ e')" "m \<le> 2 ^ e'"
      "e' = Suc e \<or> 2 ^ (e' - 1) < m"
      by auto
    have "2 ^ (e' - 1) < m" using e'(5) True by auto
    with e'(1,2,3,4) step show ?thesis by (intro exI[of _ e']) simp
  qed
qed

lemma min_num_slots_le: "(capacity * 4 + 2) mod 2 ^ 64 div 3 \<le> (2::nat) ^ 63"
proof -
  have "(capacity * 4 + 2) mod 2 ^ 64 < (2::nat) ^ 64" by simp
  then show ?thesis by simp
qed

lemma hash_table_with_capacity_cases:
  "\<exists>e\<ge>3. e \<le> 63 \<and> grow_cap 8 ((capacity * 4 + 2) mod 2 ^ 64 div 3) = Some (2 ^ e) \<and>
     (hash_table_with_capacity alloc capacity :: (error + ('k::default, 'v::default) hash_table) option) =
       (if alloc (2 ^ e)
        then Some (Inr \<lparr>slots = replicate (2 ^ e) Slot_empty, count = 0, max_hash_offset = 0\<rparr>)
        else Some (Inl Terminate))"
proof -
  let ?m = "(capacity * 4 + 2) mod 2 ^ 64 div 3"
  have "\<exists>e'. 3 \<le> e' \<and> e' \<le> 63 \<and> grow_cap (2 ^ 3) ?m = Some (2 ^ e') \<and> ?m \<le> 2 ^ e'
          \<and> (e' = 3 \<or> 2 ^ (e' - 1) < ?m)"
    by (rule grow_cap_total[OF _ _ min_num_slots_le]) simp_all
  then obtain e where e: "3 \<le> e" "e \<le> 63" "grow_cap (2 ^ 3) ?m = Some (2 ^ e)" by blast
  have g: "grow_cap 8 ?m = Some (2 ^ e)" using e(3) by simp
  have "(hash_table_with_capacity alloc capacity :: (error + ('k, 'v) hash_table) option) =
       (if alloc (2 ^ e)
        then Some (Inr \<lparr>slots = replicate (2 ^ e) Slot_empty, count = 0, max_hash_offset = 0\<rparr>)
        else Some (Inl Terminate))"
    unfolding hash_table_with_capacity_def Let_def g
    by (simp add: hash_table_init_def resize_def)
  with e(1,2) g show ?thesis by blast
qed

section \<open>The invariant holds in every reachable state\<close>

lemma valid_empty: "slots t = [] \<Longrightarrow> count t = 0 \<Longrightarrow> valid hash t"
  by (rule validI) (simp_all add: at_slot_def)

lemma inv_clear: "table_inv hash (clear t)"
  by (simp add: table_inv_def load_ok_def clear_def valid_empty)

lemma inv_init: "table_inv hash hash_table_init"
  by (simp add: table_inv_def load_ok_def hash_table_init_def valid_empty)

lemma inv_with_capacity:
  assumes "hash_table_with_capacity alloc capacity = Some (Inr t)"
  shows "table_inv hash t"
proof -
  from hash_table_with_capacity_cases[of capacity alloc]
  obtain e where e3: "3 \<le> e" and eq:
    "(hash_table_with_capacity alloc capacity :: (error + ('a, 'b) hash_table) option) =
       (if alloc (2 ^ e)
        then Some (Inr \<lparr>slots = replicate (2 ^ e) Slot_empty, count = 0, max_hash_offset = 0\<rparr>)
        else Some (Inl Terminate))"
    by blast
  from eq assms have "t = \<lparr>slots = replicate (2 ^ e) Slot_empty, count = 0, max_hash_offset = 0\<rparr>"
    by (simp split: if_splits)
  note e = e3 this
  have "valid hash (t\<lparr>slots := replicate (2 ^ e) Slot_empty, count := 0, max_hash_offset := 0\<rparr>)"
    using e(1) by (rule valid_fresh)
  then have "valid hash t" by (simp add: e(2))
  then show ?thesis by (simp add: table_inv_def load_ok_def e(2))
qed

lemma load_grow:
  assumes "(c::nat) \<le> (n::nat) * 3 div 4 + 1" "\<exists>e\<ge>3. n = 2 ^ e"
  shows "c + 1 \<le> n * 2 * 3 div 4 + 1"
proof -
  from assms(2) obtain e where e: "3 \<le> e" "n = 2 ^ e" by blast
  define q :: nat where "q = 2 ^ (e - 2)"
  have "e = 2 + (e - 2)" using e(1) by simp
  then have "(2::nat) ^ e = 2 ^ (2 + (e - 2))" by (rule arg_cong)
  also have "\<dots> = 4 * q" unfolding q_def power_add by simp
  finally have n: "n = 4 * q" using e(2) by simp
  have "0 < q" by (simp add: q_def)
  have a: "n * 3 div 4 = 3 * q" unfolding n by simp
  have b: "n * 2 * 3 div 4 = 6 * q" unfolding n by simp
  show ?thesis using assms(1) \<open>0 < q\<close> unfolding a b by simp
qed

lemma load_ok_mono:
  assumes "load_ok t" "length (slots t') = length (slots t)" "count t' \<le> count t"
  shows "load_ok t'"
proof (cases "slots t = []")
  case True
  with assms(2) show ?thesis by (simp add: load_ok_def)
next
  case False
  with assms show ?thesis unfolding load_ok_def by (metis le_trans)
qed

lemma inv_set:
  assumes "table_inv hash t" "set_ht alloc hash t k v = Some r"
  shows "case r of Inl (e, t') \<Rightarrow> t' = clear t | Inr (t', i) \<Rightarrow> table_inv hash t'"
proof -
  have wf: "valid hash t" and lo: "load_ok t" using assms(1) by (simp_all add: table_inv_def)
  from set_ht_cases[OF wf, of alloc k v] show ?thesis
  proof (elim disjE exE conjE)
    fix t' i
    assume s: "set_ht alloc hash t k v = Some (Inr (t', i))" and wf': "valid hash t'"
      and len: "length (slots t') =
                (if get_slot hash t k = None \<and> should_rehash t then new_size t
                 else length (slots t))"
      and cnt: "count t' = (if get_slot hash t k = None then count t + 1 else count t)"
    have "load_ok t'"
    proof (cases "get_slot hash t k = None")
      case False
      with len cnt have "length (slots t') = length (slots t)" "count t' \<le> count t" by simp_all
      with lo show ?thesis by (rule load_ok_mono)
    next
      case None: True
      show ?thesis
      proof (cases "should_rehash t")
        case False
        with None len cnt show ?thesis by (simp add: load_ok_def should_rehash_def)
      next
        case True
        show ?thesis
        proof (cases "slots t = []")
          case e: True
          then have "count t = 0" using valid_count[OF wf] by simp
          with None True len cnt e show ?thesis by (simp add: load_ok_def new_size_def)
        next
          case ne: False
          have "count t \<le> length (slots t) * 3 div 4 + 1"
            using lo ne by (simp add: load_ok_def)
          moreover have "\<exists>e\<ge>3. length (slots t) = 2 ^ e" using valid_cap[OF wf] ne by simp
          ultimately have "count t + 1 \<le> length (slots t) * 2 * 3 div 4 + 1" by (rule load_grow)
          with None True len cnt ne show ?thesis by (simp add: load_ok_def new_size_def)
        qed
      qed
    qed
    with s wf' assms(2) show ?thesis by (simp add: table_inv_def)
  next
    assume "set_ht alloc hash t k v = Some (Inl (Bad_alloc, clear t))"
    with assms(2) show ?thesis by auto
  qed
qed

lemma remove_ht_shape:
  "length (slots (remove_ht hash t k)) = length (slots t)"
  "valid hash t \<Longrightarrow> count (remove_ht hash t k) \<le> count t"
proof -
  show "length (slots (remove_ht hash t k)) = length (slots t)"
    by (simp add: remove_ht_def split: option.splits)
  assume wf: "valid hash t"
  show "count (remove_ht hash t k) \<le> count t"
  proof (cases "get_slot hash t k")
    case None
    then show ?thesis by (simp add: remove_ht_def)
  next
    case (Some i)
    then have at: "at_slot t k i" using wf by (simp add: get_slot_Some_iff)
    then have "0 < length (filter used (slots t))"
      using length_filter_erase(2)[of i "slots t" used Slot_empty]
      by (simp add: at_slot_def Slot_empty_def)
    then have "count t \<noteq> 0" using valid_count[OF wf] by simp
    then show ?thesis using Some by (simp add: remove_ht_def)
  qed
qed

lemma inv_remove:
  assumes "table_inv hash t"
  shows "table_inv hash (remove_ht hash t k)"
proof -
  have wf: "valid hash t" and lo: "load_ok t" using assms by (simp_all add: table_inv_def)
  have "load_ok (remove_ht hash t k)"
    using lo remove_ht_shape(1)[of hash t k] remove_ht_shape(2)[OF wf, of k]
    by (rule load_ok_mono)
  with remove_ht_valid[OF wf] show ?thesis by (simp add: table_inv_def)
qed

lemma inv_index:
  assumes "table_inv hash t" "index_op alloc hash t k = Some r"
  shows "case r of Inl (e, t') \<Rightarrow> t' = clear t | Inr (t', i) \<Rightarrow> table_inv hash t'"
proof (cases "get_slot hash t k")
  case None
  with assms(2) have "set_ht alloc hash t k default = Some r" by (simp add: index_op_def)
  with assms(1) show ?thesis by (rule inv_set)
next
  case (Some i)
  with assms(2) have "r = Inr (t, i)" by (simp add: index_op_def)
  with assms(1) show ?thesis by simp
qed

lemma hash_table_move_eq: "hash_table_move t = (t, clear t)"
  by (simp add: hash_table_move_def)

lemma reachable_inv: "reachable hash t \<Longrightarrow> table_inv hash t"
proof (induction rule: reachable.induct)
  case init
  show ?case by (rule inv_init)
next
  case (with_capacity alloc capacity t)
  then show ?case by (rule inv_with_capacity)
next
  case (clear t)
  show ?case by (rule inv_clear)
next
  case (set t alloc k v t' i)
  from inv_set[OF set.IH set.hyps(2)] show ?case by simp
next
  case (set_throws t alloc k v e t')
  from inv_set[OF set_throws.IH set_throws.hyps(2)] show ?case by (simp add: inv_clear)
next
  case (remove t k)
  then show ?case by (simp add: inv_remove)
next
  case (index t alloc k t' i)
  from inv_index[OF index.IH index.hyps(2)] show ?case by simp
next
  case (index_throws t alloc k e t')
  from inv_index[OF index_throws.IH index_throws.hyps(2)] show ?case by (simp add: inv_clear)
next
  case (move_to t)
  then show ?case by (simp add: hash_table_move_eq)
next
  case (move_from t)
  show ?case by (simp add: hash_table_move_eq inv_clear)
qed

section \<open>Consequences for sequences of calls, iteration and collisions\<close>

lemma reachable_valid: "reachable hash t \<Longrightarrow> valid hash t"
  using reachable_inv[of hash t] by (simp add: table_inv_def)

lemma run_ops_reachable:
  "reachable hash t \<Longrightarrow> run_ops alloc hash t ops = Some t' \<Longrightarrow> reachable hash t'"
proof (induction ops arbitrary: t)
  case Nil
  then show ?case by simp
next
  case (Cons x ops)
  show ?case
  proof (cases x)
    case (Set k v)
    with Cons.prems(2) obtain t1 i where s: "set_ht alloc hash t k v = Some (Inr (t1, i))"
      and r: "run_ops alloc hash t1 ops = Some t'"
      by (auto split: option.splits sum.splits)
    from Cons.prems(1) s have "reachable hash t1" by (rule reachable.set)
    then show ?thesis using r by (rule Cons.IH)
  next
    case (Remove k)
    with Cons.prems(2) have r: "run_ops alloc hash (remove_ht hash t k) ops = Some t'" by simp
    from Cons.prems(1) have "reachable hash (remove_ht hash t k)" by (rule reachable.remove)
    then show ?thesis using r by (rule Cons.IH)
  qed
qed

lemma example_seven_run:
  "run_ops alloc_ok hash_id hash_table_init
     [Set 1 1, Set 2 2, Set 3 3, Set 4 4, Set 5 5, Set 6 6, Set 7 7] = Some example_seven"
  by code_simp

lemma example_seven_reachable: "reachable hash_id example_seven"
  by (rule run_ops_reachable[OF reachable.init example_seven_run])

lemma example_abc_run:
  "run_ops alloc_ok (hash_const 0) hash_table_init [Set ''a'' 1, Set ''b'' 2, Set ''c'' 3]
     = Some example_abc"
  by code_simp

lemma example_ac_run:
  "run_ops alloc_ok (hash_const 0) hash_table_init
     [Set ''a'' 1, Set ''b'' 2, Set ''c'' 3, Remove ''b''] = Some example_ac"
  by code_simp

lemma example_ac_reachable: "reachable (hash_const 0) example_ac"
  by (rule run_ops_reachable[OF reachable.init example_ac_run])

lemma set_ht_get:
  assumes "valid hash t" "set_ht alloc hash t k v = Some (Inr (t', i))"
  shows "get hash t' k' = (if k' = k then Some v else get hash t k')"
  using set_ht_cases[OF assms(1), of alloc k v] assms(2) by auto

lemma set_ht_length:
  assumes "valid hash t" "set_ht alloc hash t k v = Some (Inr (t', i))"
  shows "length (slots t') =
           (if get_slot hash t k = None \<and> should_rehash t then new_size t else length (slots t))"
  using set_ht_cases[OF assms(1), of alloc k v] assms(2) by auto

lemma get_clear: "get hash (clear t) k = None"
  by (simp add: get_def get_slot_def clear_def)

lemma run_ops_get:
  "reachable hash t \<Longrightarrow> run_ops alloc hash t ops = Some t'
   \<Longrightarrow> get hash t' k = (case last_write k ops of None \<Rightarrow> get hash t k | Some w \<Rightarrow> w)"
proof (induction ops arbitrary: t)
  case Nil
  then show ?case by simp
next
  case (Cons x ops)
  have v: "valid hash t" using Cons.prems(1) by (rule reachable_valid)
  show ?case
  proof (cases x)
    case (Set k0 v0)
    with Cons.prems(2) obtain t1 i where s: "set_ht alloc hash t k0 v0 = Some (Inr (t1, i))"
      and r: "run_ops alloc hash t1 ops = Some t'"
      by (auto split: option.splits sum.splits)
    from Cons.prems(1) s have "reachable hash t1" by (rule reachable.set)
    from Cons.IH[OF this r]
    have "get hash t' k = (case last_write k ops of None \<Rightarrow> get hash t1 k | Some w \<Rightarrow> w)" .
    also have "get hash t1 k = (if k = k0 then Some v0 else get hash t k)"
      using v s by (rule set_ht_get)
    finally show ?thesis using Set by (auto split: option.splits)
  next
    case (Remove k0)
    with Cons.prems(2) have r: "run_ops alloc hash (remove_ht hash t k0) ops = Some t'" by simp
    from Cons.prems(1) have "reachable hash (remove_ht hash t k0)" by (rule reachable.remove)
    from Cons.IH[OF this r]
    have "get hash t' k =
            (case last_write k ops of None \<Rightarrow> get hash (remove_ht hash t k0) k | Some w \<Rightarrow> w)" .
    also have "get hash (remove_ht hash t k0) k = (if k = k0 then None else get hash t k)"
      using v by (rule remove_ht_get)
    finally show ?thesis using Remove by (auto split: option.splits)
  qed
qed

declare skip_unused.simps [simp del]

lemma skip_unused_props:
  "i \<le> length (slots t) \<Longrightarrow>
     i \<le> skip_unused t i \<and> skip_unused t i \<le> length (slots t)
     \<and> (skip_unused t i < length (slots t) \<longrightarrow> used (slots t ! skip_unused t i))
     \<and> filter used (drop (skip_unused t i) (slots t)) = filter used (drop i (slots t))"
proof (induction t i rule: skip_unused.induct)
  case (1 t i)
  show ?case
  proof (cases "i < length (slots t) \<and> \<not> used (slots t ! i)")
    case True
    then have eq: "skip_unused t i = skip_unused t (i + 1)"
      by (subst skip_unused.simps) simp
    have "drop i (slots t) = slots t ! i # drop (Suc i) (slots t)"
      using True by (simp add: Cons_nth_drop_Suc)
    then have "filter used (drop i (slots t)) = filter used (drop (i + 1) (slots t))"
      using True by simp
    moreover have "i + 1 \<le> length (slots t)" using True by simp
    ultimately show ?thesis using "1.IH"[OF True] unfolding eq by simp
  next
    case False
    then have eq: "skip_unused t i = i" by (subst skip_unused.simps) auto
    show ?thesis unfolding eq using False "1.prems" by auto
  qed
qed

lemma iterate_from_collect:
  "it \<le> length (slots t) \<Longrightarrow> (it < length (slots t) \<longrightarrow> used (slots t ! it))
   \<Longrightarrow> iterate_from t it acc = Some (acc @ map kv (filter used (drop it (slots t))))"
proof (induction "length (slots t) - it" arbitrary: it acc rule: less_induct)
  case less
  show ?case
  proof (cases "it = length (slots t)")
    case True
    then show ?thesis by (subst iterate_from.simps) (simp add: end_it_def)
  next
    case False
    with less.prems have lt: "it < length (slots t)" and u: "used (slots t ! it)" by simp_all
    let ?j = "skip_unused t (it + 1)"
    have p: "it + 1 \<le> ?j" "?j \<le> length (slots t)"
      "?j < length (slots t) \<longrightarrow> used (slots t ! ?j)"
      "filter used (drop ?j (slots t)) = filter used (drop (it + 1) (slots t))"
      using skip_unused_props[of "it + 1" t] lt by simp_all
    have m: "length (slots t) - ?j < length (slots t) - it" using p(1) lt by simp
    have d: "drop it (slots t) = slots t ! it # drop (Suc it) (slots t)"
      using lt by (simp add: Cons_nth_drop_Suc)
    have "iterate_from t it acc = iterate_from t ?j (acc @ [deref_it t it])"
      using False by (subst iterate_from.simps) (simp add: end_it_def incr_it_def)
    also have "\<dots> = Some ((acc @ [deref_it t it]) @ map kv (filter used (drop ?j (slots t))))"
      by (rule less.hyps[OF m p(2) p(3)])
    also have "\<dots> = Some (acc @ map kv (filter used (drop it (slots t))))"
      unfolding p(4) d using u by (simp add: deref_it_def)
    finally show ?thesis .
  qed
qed

lemma iterate_eq: "iterate t = Some (map kv (filter used (slots t)))"
proof -
  let ?j = "skip_unused t 0"
  have p: "?j \<le> length (slots t)" "?j < length (slots t) \<longrightarrow> used (slots t ! ?j)"
    "filter used (drop ?j (slots t)) = filter used (drop 0 (slots t))"
    using skip_unused_props[of 0 t] by simp_all
  have "iterate t = Some ([] @ map kv (filter used (drop ?j (slots t))))"
    unfolding iterate_def begin_it_def by (rule iterate_from_collect[OF p(1) p(2)])
  then show ?thesis unfolding p(3) by simp
qed

lemma valid_distinct_keys:
  assumes "valid hash t"
  shows "distinct (map (\<lambda>s. key (kv s)) (filter used (slots t)))"
proof (rule distinct_filter_nthI)
  fix i j assume "i < length (slots t)" "j < length (slots t)" "used (slots t ! i)"
    "used (slots t ! j)" "key (kv (slots t ! i)) = key (kv (slots t ! j))"
  then have "at_slot t (key (kv (slots t ! i))) i" "at_slot t (key (kv (slots t ! i))) j"
    by (simp_all add: at_slot_def)
  then show "i = j" by (rule at_slot_unique[OF assms])
qed







lemma run_ops_total:
  "reachable hash t \<Longrightarrow> \<forall>n. alloc n \<Longrightarrow> \<exists>t'. run_ops alloc hash t ops = Some t'"
proof (induction ops arbitrary: t)
  case Nil
  then show ?case by simp
next
  case (Cons x ops)
  show ?case
  proof (cases x)
    case (Set k v)
    from set_ht_cases[OF reachable_valid[OF Cons.prems(1)], of alloc k v] Cons.prems(2)
    obtain t1 i where s: "set_ht alloc hash t k v = Some (Inr (t1, i))" by blast
    from Cons.prems(1) s have "reachable hash t1" by (rule reachable.set)
    from Cons.IH[OF this Cons.prems(2)] s Set show ?thesis by simp
  next
    case (Remove k)
    from Cons.prems(1) have "reachable hash (remove_ht hash t k)" by (rule reachable.remove)
    from Cons.IH[OF this Cons.prems(2)] Remove show ?thesis by simp
  qed
qed

lemma set_ht_total:
  assumes "valid hash t" "alloc (new_size t)"
  shows "\<exists>t' i. set_ht alloc hash t k v = Some (Inr (t', i))"
  using set_ht_cases[OF assms(1), of alloc k v] assms(2) by blast

section \<open>The three-colliding-keys scenario, slot by slot\<close>

lemma mod_add_inj:
  assumes "(h + a) mod n = (h + b) mod (n::nat)" "a < n" "b < n"
  shows "a = b"
proof -
  have *: "x = y" if "x \<le> y" "y < n" "(h + x) mod n = (h + y) mod n" for x y
  proof -
    have le: "h + x \<le> h + y" using that(1) by simp
    have "(h + y) mod n = (h + x) mod n" using that(3) by (rule sym)
    then have "n dvd (h + y) - (h + x)"
      unfolding mod_eq_dvd_iff_nat[OF le] .
    moreover have "(h + y) - (h + x) = y - x" by simp
    ultimately have "n dvd y - x" by (simp only:)
    moreover have "y - x < n" using that(2) by simp
    ultimately have "y - x = 0" using nat_dvd_not_less by (cases "y - x = 0") auto
    with that(1) show ?thesis by simp
  qed
  show ?thesis
  proof (cases "a \<le> b")
    case True
    from *[OF True assms(3) assms(1)] show ?thesis .
  next
    case False
    then have "b \<le> a" by simp
    from *[OF this assms(2) assms(1)[symmetric]] show ?thesis by simp
  qed
qed

lemma insert_at:
  assumes e: "length (slots t) = 2 ^ e"
    and u: "\<forall>d'<d. used (slots t ! ((hash k + d') mod length (slots t)))"
    and f: "\<not> used (slots t ! ((hash k + d) mod length (slots t)))"
  shows "insert_nonexistent_norehash hash t k v =
           Some (t\<lparr>slots := (slots t)[(hash k + d) mod length (slots t) := Slot_of k v],
                   count := count t + 1,
                   max_hash_offset := max (max_hash_offset t) d\<rparr>,
                 (hash k + d) mod length (slots t))"
proof -
  let ?n = "length (slots t)"
  have ne: "slots t \<noteq> []" using e by auto
  have ki: "key_index hash t k = hash k mod ?n" using e by (rule key_index_mod)
  have lt: "hash k mod ?n < ?n" using ne by simp
  have sh: "(hash k mod ?n + x) mod ?n = (hash k + x) mod ?n" for x
    by (rule mod_add_left_eq)
  have u': "\<forall>d'<d. used (slots t ! ((hash k mod ?n + d') mod ?n))"
    unfolding sh by (rule u)
  have f': "\<not> used (slots t ! ((hash k mod ?n + d) mod ?n))"
    unfolding sh by (rule f)
  have "find_unused (slots t) (hash k mod ?n) 0 = Some ((hash k mod ?n + d) mod ?n, 0 + d)"
    by (rule find_unused_run[OF e lt u' f'])
  then have "find_unused (slots t) (key_index hash t k) 0 = Some ((hash k + d) mod ?n, d)"
    by (simp only: ki sh add_0)
  then show ?thesis using ne by (simp add: insert_nonexistent_norehash_def max_def)
qed


lemma scenario_layout:
  fixes a b c :: "'k::default" and va vb vc :: "'v::default" and h :: nat
  assumes al: "alloc 8" and ab: "a \<noteq> b" and ac: "a \<noteq> c" and bc: "b \<noteq> c"
  defines "i \<equiv> h mod 8" and "j \<equiv> (h + 1) mod 8" and "l \<equiv> (h + 2) mod 8"
  defines "t3 \<equiv> \<lparr>slots = (replicate 8 Slot_empty)
                           [i := Slot_of a va, j := Slot_of b vb, l := Slot_of c vc],
                  count = 3, max_hash_offset = 2\<rparr>"
  defines "t4 \<equiv> \<lparr>slots = (replicate 8 Slot_empty)
                           [i := Slot_of a va, j := Slot_of b vb, l := Slot_of c vc,
                            j := Slot_empty],
                  count = 2, max_hash_offset = 2\<rparr>"
  shows "run_ops alloc (hash_const h) hash_table_init [Set a va, Set b vb, Set c vc] = Some t3
    \<and> run_ops alloc (hash_const h) hash_table_init
           [Set a va, Set b vb, Set c vc, Remove b] = Some t4
    \<and> (i \<noteq> j \<and> j \<noteq> l \<and> i \<noteq> l)
    \<and> \<not> used (slots t4 ! j)
    \<and> get_slot (hash_const h) t4 c = Some l"
proof -
  let ?H = "hash_const h :: 'k \<Rightarrow> nat"
  let ?E = "replicate 8 Slot_empty :: ('k, 'v) Slot list"
  let ?A = "Slot_of a va" and ?B = "Slot_of b vb" and ?C = "Slot_of c vc"
  define t0 :: "('k, 'v) hash_table" where "t0 = \<lparr>slots = ?E, count = 0, max_hash_offset = 0\<rparr>"
  define t1 :: "('k, 'v) hash_table"
    where "t1 = \<lparr>slots = ?E[i := ?A], count = 1, max_hash_offset = 0\<rparr>"
  define t2 :: "('k, 'v) hash_table"
    where "t2 = \<lparr>slots = ?E[i := ?A, j := ?B], count = 2, max_hash_offset = 1\<rparr>"
  have lt: "i < 8" "j < 8" "l < 8" by (simp_all add: i_def j_def l_def)
  have ij: "i \<noteq> j" using mod_add_inj[of h 0 8 1] by (auto simp: i_def j_def)
  have il: "i \<noteq> l" using mod_add_inj[of h 0 8 2] by (auto simp: i_def l_def)
  have jl: "j \<noteq> l" using mod_add_inj[of h 1 8 2] by (auto simp: j_def l_def)
  note ne = ij il jl ij[symmetric] il[symmetric] jl[symmetric]
  have fold: "h mod 8 = i" "Suc h mod 8 = j" "Suc (Suc h) mod 8 = l"
    by (simp_all add: i_def j_def l_def)
  have H: "?H k = h" for k by (simp add: hash_const_def)
  have sl: "used (Slot_of k v)" "key (kv (Slot_of k v)) = k" "val (kv (Slot_of k v)) = v"
    "\<not> used (Slot_empty :: ('k, 'v) Slot)" for k :: 'k and v :: 'v
    by (simp_all add: Slot_of_def Slot_empty_def)
  have place: "insert_nonexistent_norehash ?H t k v =
      Some (t\<lparr>slots := (slots t)[(h + d) mod 8 := Slot_of k v], count := count t + 1,
              max_hash_offset := max (max_hash_offset t) d\<rparr>, (h + d) mod 8)"
    if "length (slots t) = 8" "\<forall>d'<d. used (slots t ! ((h + d') mod 8))"
      "\<not> used (slots t ! ((h + d) mod 8))" for t :: "('k, 'v) hash_table" and k v d
    using insert_at[of t 3 d ?H k v] that by (simp add: H)
  have absent: "get_slot ?H t k = None"
    if "reachable ?H t" "\<And>x. x < length (slots t) \<Longrightarrow> used (slots t ! x)
          \<Longrightarrow> key (kv (slots t ! x)) \<noteq> k"
    for t :: "('k, 'v) hash_table" and k
    unfolding get_slot_None_iff[OF reachable_valid[OF that(1)]]
    using that(2) by (auto simp: at_slot_def)
  text \<open>first insertion\<close>
  have re: "rehash alloc ?H hash_table_init = Some (Inr t0)"
    using al by (simp add: rehash_def Let_def clear_def resize_def hash_table_init_def t0_def)
  have i0: "insert_nonexistent_norehash ?H t0 a va = Some (t1, i)"
    using place[of t0 0 a va] lt by (simp add: t0_def t1_def fold sl)
  have s1: "set_ht alloc ?H hash_table_init a va = Some (Inr (t1, i))"
    using re i0
    by (simp add: set_ht_def get_slot_def should_rehash_def hash_table_init_def)
  have r1: "reachable ?H t1" by (rule reachable.set[OF reachable.init s1])
  text \<open>second insertion\<close>
  have n1: "slots t1 ! i = ?A" "slots t1 ! j = Slot_empty" "length (slots t1) = 8"
    using lt ne by (simp_all add: t1_def)
  have k1: "key (kv (slots t1 ! x)) \<noteq> b" if "x < length (slots t1)" "used (slots t1 ! x)" for x
    using that ab lt by (cases "x = i") (simp_all add: t1_def sl)
  have g1: "get_slot ?H t1 b = None" using r1 k1 by (rule absent)
  have i1: "insert_nonexistent_norehash ?H t1 b vb = Some (t2, j)"
    using place[of t1 1 b vb] n1 by (simp add: fold sl) (simp add: t1_def t2_def)
  have s2: "set_ht alloc ?H t1 b vb = Some (Inr (t2, j))"
    using g1 i1 by (simp add: set_ht_def should_rehash_def) (simp add: t1_def)
  have r2: "reachable ?H t2" by (rule reachable.set[OF r1 s2])
  text \<open>third insertion\<close>
  have n2: "slots t2 ! i = ?A" "slots t2 ! j = ?B" "slots t2 ! l = Slot_empty"
    "length (slots t2) = 8"
    using lt ne by (simp_all add: t2_def)
  have k2: "key (kv (slots t2 ! x)) \<noteq> c" if "x < length (slots t2)" "used (slots t2 ! x)" for x
    using that ac bc lt by (cases "x = i"; cases "x = j") (simp_all add: t2_def sl)
  have g2: "get_slot ?H t2 c = None" using r2 k2 by (rule absent)
  have u2: "\<forall>d'<2. used (slots t2 ! ((h + d') mod 8))"
  proof (intro allI impI)
    fix d' :: nat assume "d' < 2"
    then consider "d' = 0" | "d' = 1" by arith
    then show "used (slots t2 ! ((h + d') mod 8))"
      by cases (simp_all add: fold n2 sl)
  qed
  have i2: "insert_nonexistent_norehash ?H t2 c vc = Some (t3, l)"
    using place[of t2 2 c vc, OF n2(4) u2] n2 by (simp add: fold sl) (simp add: t2_def t3_def)
  have s3: "set_ht alloc ?H t2 c vc = Some (Inr (t3, l))"
    using g2 i2 by (simp add: set_ht_def should_rehash_def) (simp add: t2_def)
  have r3: "reachable ?H t3" by (rule reachable.set[OF r2 s3])
  text \<open>removal\<close>
  have n3: "slots t3 ! i = ?A" "slots t3 ! j = ?B" "slots t3 ! l = ?C" "length (slots t3) = 8"
    using lt ne by (simp_all add: t3_def)
  have "at_slot t3 b j" using lt n3 by (simp add: at_slot_def sl)
  then have g3: "get_slot ?H t3 b = Some j"
    unfolding get_slot_Some_iff[OF reachable_valid[OF r3]] .
  have rm: "remove_ht ?H t3 b = t4"
    using g3 by (simp add: remove_ht_def) (simp add: t3_def t4_def)
  have r4: "reachable ?H t4" using reachable.remove[OF r3, of b] by (simp only: rm)
  have n4: "slots t4 ! i = ?A" "slots t4 ! j = Slot_empty" "slots t4 ! l = ?C"
    "length (slots t4) = 8"
    using lt ne by (simp_all add: t4_def)
  have "at_slot t4 c l" using lt n4 by (simp add: at_slot_def sl)
  then have g4: "get_slot ?H t4 c = Some l"
    unfolding get_slot_Some_iff[OF reachable_valid[OF r4]] .
  have "run_ops alloc (hash_const h) hash_table_init [Set a va, Set b vb, Set c vc] = Some t3"
    using s1 s2 s3 by simp
  moreover have "run_ops alloc (hash_const h) hash_table_init
           [Set a va, Set b vb, Set c vc, Remove b] = Some t4"
    using s1 s2 s3 rm by simp
  moreover have "\<not> used (slots t4 ! j)" using n4(2) by (simp add: sl)
  ultimately show ?thesis using ij il jl g4 by (intro conjI)
qed

lemma update_then_reset:
  assumes "i < n" "j < n" "l < n" "i \<noteq> j" "j \<noteq> l"
  shows "(replicate n e)[i := a, j := b, l := c, j := e] = (replicate n e)[i := a, l := c]"
  by (rule nth_equalityI) (use assms in \<open>auto simp: nth_list_update\<close>)

section \<open>Rehash under a constant hash\<close>





section \<open>The claims\<close>

text \<open>
  C1. No-tombstone correctness. With a constant hash function all keys have the same
  natural slot. Whatever reachable table the calls \<^verbatim>\<open>set("a", va)\<close>, \<^verbatim>\<open>set("b", vb)\<close>,
  \<^verbatim>\<open>set("c", vc)\<close>, \<^verbatim>\<open>remove("b")\<close> are made on, and whatever the constant is, \<^verbatim>\<open>get("c")\<close>
  afterwards returns the value stored for "c". On a default-constructed table the
  three keys occupy the slots \<open>i\<close>, \<open>i + 1\<close>, \<open>i + 2\<close> (modulo the capacity 8, with
  \<open>i = h mod 8\<close>), the removal leaves slot \<open>i + 1\<close> unused, and the bounded walk for "c"
  passes that slot and returns slot \<open>i + 2\<close>.
\<close>

theorem lookup_survives_removed_neighbour:
  fixes t t' :: "(string, 'v::default) hash_table"
  shows "(reachable (hash_const h) t \<longrightarrow>
            run_ops alloc (hash_const h) t
              [Set ''a'' va, Set ''b'' vb, Set ''c'' vc, Remove ''b''] = Some t' \<longrightarrow>
            get (hash_const h) t' ''c'' = Some vc)
       \<and> (alloc 8 \<longrightarrow>
            run_ops alloc (hash_const h) hash_table_init
              [Set ''a'' va, Set ''b'' vb, Set ''c'' vc] = Some (scenario_abc h va vb vc)
          \<and> run_ops alloc (hash_const h) hash_table_init
              [Set ''a'' va, Set ''b'' vb, Set ''c'' vc, Remove ''b''] = Some (scenario_ac h va vc)
          \<and> \<not> used (slots (scenario_ac h va vc) ! ((h + 1) mod 8))
          \<and> get_slot (hash_const h) (scenario_ac h va vc) ''c'' = Some ((h + 2) mod 8)
          \<and> get (hash_const h) (scenario_ac h va vc) ''c'' = Some vc)"
proof (intro conjI impI)
  assume r: "reachable (hash_const h) t"
    and e: "run_ops alloc (hash_const h) t
              [Set ''a'' va, Set ''b'' vb, Set ''c'' vc, Remove ''b''] = Some t'"
  from run_ops_get[OF r e, of "''c''"] show "get (hash_const h) t' ''c'' = Some vc" by simp
next
  assume al: "alloc 8"
  have d: "''a'' \<noteq> ''b''" "''a'' \<noteq> ''c''" "''b'' \<noteq> ''c''" by simp_all
  note l = scenario_layout[where alloc = alloc and a = "''a''" and b = "''b''" and c = "''c''"
      and h = h and va = va and vb = vb and vc = vc, OF al d]
  note lay = l[THEN conjunct1] l[THEN conjunct2, THEN conjunct1]
    l[THEN conjunct2, THEN conjunct2, THEN conjunct1]
    l[THEN conjunct2, THEN conjunct2, THEN conjunct2, THEN conjunct1]
    l[THEN conjunct2, THEN conjunct2, THEN conjunct2, THEN conjunct2]
  have eq: "(replicate 8 (Slot_empty :: (string, 'v) Slot))
              [h mod 8 := Slot_of ''a'' va, (h + 1) mod 8 := Slot_of ''b'' vb,
               (h + 2) mod 8 := Slot_of ''c'' vc, (h + 1) mod 8 := Slot_empty]
            = (replicate 8 Slot_empty)[h mod 8 := Slot_of ''a'' va, (h + 2) mod 8 := Slot_of ''c'' vc]"
    using lay(3) by (intro update_then_reset) simp_all
  show "run_ops alloc (hash_const h) hash_table_init
          [Set ''a'' va, Set ''b'' vb, Set ''c'' vc] = Some (scenario_abc h va vb vc)"
    using lay(1) by (simp only: scenario_abc_def)
  show 4: "run_ops alloc (hash_const h) hash_table_init
          [Set ''a'' va, Set ''b'' vb, Set ''c'' vc, Remove ''b''] = Some (scenario_ac h va vc)"
    using lay(2) by (simp only: scenario_ac_def eq)
  show "\<not> used (slots (scenario_ac h va vc) ! ((h + 1) mod 8))"
    unfolding scenario_ac_def using lay(4) unfolding eq .
  show "get_slot (hash_const h) (scenario_ac h va vc) ''c'' = Some ((h + 2) mod 8)"
    using lay(5) by (simp only: scenario_ac_def eq)
  from run_ops_get[OF reachable.init 4, of "''c''"]
  show "get (hash_const h) (scenario_ac h va vc) ''c'' = Some vc" by simp
qed

theorem lookup_survives_removed_neighbour_witness:
  "reachable (hash_const 0) (hash_table_init :: (string, nat) hash_table)
   \<and> run_ops alloc_ok (hash_const 0) hash_table_init
        [Set ''a'' 1, Set ''b'' 2, Set ''c'' 3, Remove ''b''] = Some example_ac
   \<and> get (hash_const 0) example_ac ''c'' = Some 3
   \<and> alloc_ok 8
   \<and> run_ops alloc_ok (hash_const 0) hash_table_init
        [Set ''a'' 1, Set ''b'' 2, Set ''c'' 3] = Some (scenario_abc 0 1 2 (3::nat))
   \<and> run_ops alloc_ok (hash_const 0) hash_table_init
        [Set ''a'' 1, Set ''b'' 2, Set ''c'' 3, Remove ''b''] = Some (scenario_ac 0 1 (3::nat))
   \<and> \<not> used (slots (scenario_ac 0 1 (3::nat)) ! ((0 + 1) mod 8))
   \<and> get_slot (hash_const 0) (scenario_ac 0 1 (3::nat)) ''c'' = Some ((0 + 2) mod 8)
   \<and> get (hash_const 0) (scenario_ac 0 1 (3::nat)) ''c'' = Some 3
   \<and> scenario_abc 0 1 2 3 = example_abc
   \<and> scenario_ac 0 1 3 = example_ac"
proof -
  have r: "reachable (hash_const 0) (hash_table_init :: (string, nat) hash_table)"
    by (rule reachable.init)
  have a: "alloc_ok 8" by (simp add: alloc_ok_def)
  have e: "scenario_abc 0 1 2 3 = example_abc" "scenario_ac 0 1 3 = example_ac"
    by (simp_all add: scenario_abc_def scenario_ac_def example_abc_def example_ac_def
        numeral_2_eq_2)
  note c = lookup_survives_removed_neighbour[of 0 hash_table_init alloc_ok 1 2 3 example_ac]
  from c r a example_ac_run e show ?thesis by blast
qed

text \<open>
  C2. The claim is that after every public operation a table with capacity above 0 has
  \<open>count \<le> capacity * 3 / 4\<close>. The code does not keep that bound: \<^verbatim>\<open>should_rehash\<close> is
  asked before the insertion and compares the old count with \<open>>\<close>, so a table of 8
  slots that holds 6 pairs takes a seventh without growing. Seven \<^verbatim>\<open>set\<close>s on a
  default-constructed table end with 7 pairs in 8 slots.
\<close>

theorem load_factor_bound_exceeded:
  "run_ops alloc_ok hash_id hash_table_init
     [Set 1 1, Set 2 2, Set 3 3, Set 4 4, Set 5 5, Set 6 6, Set 7 7] = Some example_seven
   \<and> length (slots example_seven) = 8 \<and> count example_seven = 7
   \<and> \<not> count example_seven \<le> length (slots example_seven) * 3 div 4"
  by code_simp

text \<open>
  C3. Rehash preserves contents. On every reachable table, a \<^verbatim>\<open>set\<close> of a new key that finds
  \<^verbatim>\<open>should_rehash\<close> true returns when the allocation succeeds; the capacity has then
  become 8 (from 0) or twice what it was, and every key that \<^verbatim>\<open>get\<close> found before is found
  afterwards with the same value.
\<close>

theorem rehash_preserves_contents:
  assumes "reachable hash t"
    and "get_slot hash t k' = None" and "should_rehash t"
    and "alloc (if slots t = [] then 8 else length (slots t) * 2)"
  shows "\<exists>t' i. set_ht alloc hash t k' v = Some (Inr (t', i))
           \<and> length (slots t') = (if slots t = [] then 8 else length (slots t) * 2)
           \<and> (\<forall>k. get hash t k \<noteq> None \<longrightarrow> get hash t' k = get hash t k)"
proof -
  have v: "valid hash t" using assms(1) by (rule reachable_valid)
  have "alloc (new_size t)" using assms(4) by (simp add: new_size_def)
  from set_ht_total[of hash t alloc k' v, OF v this] obtain t' i where
    s: "set_ht alloc hash t k' v = Some (Inr (t', i))" by blast
  have "get hash t k' = None" using assms(2) by (simp add: get_def)
  then have "get hash t' k = get hash t k" if "get hash t k \<noteq> None" for k
    using set_ht_get[OF v s, of k] that by auto
  moreover have "length (slots t') = (if slots t = [] then 8 else length (slots t) * 2)"
    using set_ht_length[OF v s] assms(2,3) by (simp add: new_size_def)
  ultimately show ?thesis using s by blast
qed

theorem rehash_preserves_contents_witness:
  "reachable hash_id example_seven
   \<and> get_slot hash_id example_seven 8 = None \<and> should_rehash example_seven
   \<and> alloc_ok 16
   \<and> set_ht alloc_ok hash_id example_seven 8 8 = Some (Inr (example_eight, 8))
   \<and> length (slots example_eight) = 16
   \<and> get hash_id example_seven 3 = Some 3
   \<and> get hash_id example_eight 3 = get hash_id example_seven 3"
proof -
  have a: "get_slot hash_id example_seven 8 = None" by code_simp
  have b: "should_rehash example_seven" by code_simp
  have c: "set_ht alloc_ok hash_id example_seven 8 8 = Some (Inr (example_eight, 8))"
    by code_simp
  have d: "(if slots example_seven = [] then 8 else length (slots example_seven) * 2) = 16"
    by code_simp
  have al: "alloc_ok 16" by (simp add: alloc_ok_def)
  have e: "get hash_id example_seven 3 = Some 3" by code_simp
  have al': "alloc_ok (if slots example_seven = [] then 8 else length (slots example_seven) * 2)"
    by (simp add: alloc_ok_def)
  from rehash_preserves_contents[of hash_id example_seven 8 alloc_ok 8,
      OF example_seven_reachable a b al']
  have "length (slots example_eight) = 16"
    "get hash_id example_seven 3 \<noteq> None \<longrightarrow>
       get hash_id example_eight 3 = get hash_id example_seven 3"
    unfolding c d by auto
  with e example_seven_reachable a b c al show ?thesis by simp
qed




text \<open>
  C5, the claim as stated, fails on the code: \<^verbatim>\<open>rehash\<close> moves the slot vector out and
  calls \<^verbatim>\<open>clear()\<close> before \<^verbatim>\<open>slots.resize\<close> allocates. When that allocation fails on the
  table of seven pairs, the exception leaves an empty table behind: key 3 was there
  before and is gone afterwards.
\<close>

theorem rehash_alloc_failure_counterexample:
  "get hash_id example_seven 3 = Some 3 \<and> count example_seven = 7
   \<and> rehash alloc_fails hash_id example_seven
        = Some (Inl (Bad_alloc, \<lparr>slots = [], count = 0, max_hash_offset = 0\<rparr>))
   \<and> set_ht alloc_fails hash_id example_seven 8 8
        = Some (Inl (Bad_alloc, \<lparr>slots = [], count = 0, max_hash_offset = 0\<rparr>))
   \<and> get hash_id \<lparr>slots = [], count = 0, max_hash_offset = 0\<rparr> 3 = None"
  by code_simp

text \<open>
  C5, amended. If the allocation of the new slot vector fails during a rehash, the
  failure is propagated to the caller (also through \<^verbatim>\<open>set\<close>), and the table is left in
  the valid empty state: capacity 0, count 0, \<^verbatim>\<open>max_hash_offset\<close> 0, every lookup
  missing. The pairs it held before are lost.
\<close>

theorem rehash_alloc_failure_empties:
  assumes "\<not> alloc (if slots t = [] then 8 else length (slots t) * 2)"
  shows "rehash alloc hash t = Some (Inl (Bad_alloc, clear t))
         \<and> (get_slot hash t k = None \<longrightarrow> should_rehash t \<longrightarrow>
              set_ht alloc hash t k v = Some (Inl (Bad_alloc, clear t)))
         \<and> slots (clear t) = [] \<and> count (clear t) = 0 \<and> max_hash_offset (clear t) = 0
         \<and> table_inv hash (clear t)
         \<and> (\<forall>k'. get hash (clear t) k' = None)"
proof -
  from assms have "\<not> alloc (new_size t)" by (simp add: new_size_def)
  then have r: "rehash alloc hash t = Some (Inl (Bad_alloc, clear t))" by (rule rehash_fail)
  then have "get_slot hash t k = None \<longrightarrow> should_rehash t \<longrightarrow>
              set_ht alloc hash t k v = Some (Inl (Bad_alloc, clear t))"
    by (simp add: set_ht_def)
  with r show ?thesis by (simp add: inv_clear get_clear) (simp add: clear_def)
qed

theorem rehash_alloc_failure_empties_witness:
  "\<not> alloc_fails (if slots example_seven = [] then 8 else length (slots example_seven) * 2)
   \<and> rehash alloc_fails hash_id example_seven = Some (Inl (Bad_alloc, clear example_seven))
   \<and> get_slot hash_id example_seven 8 = None \<and> should_rehash example_seven
   \<and> set_ht alloc_fails hash_id example_seven 8 8 = Some (Inl (Bad_alloc, clear example_seven))
   \<and> slots (clear example_seven) = [] \<and> count (clear example_seven) = 0
   \<and> max_hash_offset (clear example_seven) = 0
   \<and> table_inv hash_id (clear example_seven)
   \<and> (\<forall>k'. get hash_id (clear example_seven) k' = None)"
proof -
  have a: "\<not> alloc_fails (if slots example_seven = [] then 8 else length (slots example_seven) * 2)"
    by (simp add: alloc_fails_def)
  have b: "get_slot hash_id example_seven 8 = None" by code_simp
  have c: "should_rehash example_seven" by code_simp
  from rehash_alloc_failure_empties[of alloc_fails example_seven hash_id 8 8, OF a] a b c
  show ?thesis by blast
qed

text \<open>
  C6. Round trip. After any sequence of \<^verbatim>\<open>set\<close> and \<^verbatim>\<open>remove\<close> calls that all return, on any
  reachable table, \<^verbatim>\<open>get(k)\<close> is decided by the most recent call that named \<open>k\<close>: the
  value of that \<^verbatim>\<open>set\<close>, nothing if it was a \<^verbatim>\<open>remove\<close>, and what \<^verbatim>\<open>get(k)\<close> returned before
  the sequence if no call named \<open>k\<close>. When no allocation fails, every call of the
  sequence does return.
\<close>

theorem get_returns_most_recent_set:
  assumes "reachable hash t"
  shows "(run_ops alloc hash t ops = Some t' \<longrightarrow>
            get hash t' k = (case last_write k ops of None \<Rightarrow> get hash t k | Some w \<Rightarrow> w))
       \<and> ((\<forall>n. alloc n) \<longrightarrow> (\<exists>t'. run_ops alloc hash t ops = Some t'))"
  using run_ops_get[OF assms] run_ops_total[OF assms] by blast

theorem get_returns_most_recent_set_witness:
  "reachable (hash_const 0) (hash_table_init :: (string, nat) hash_table)
   \<and> run_ops alloc_ok (hash_const 0) hash_table_init
        [Set ''a'' 1, Set ''b'' 2, Set ''a'' 5, Remove ''b''] = Some example_overwritten
   \<and> get (hash_const 0) example_overwritten ''a'' = Some 5
   \<and> get (hash_const 0) example_overwritten ''b'' = None
   \<and> get (hash_const 0) example_overwritten ''c'' = None
   \<and> (\<forall>n. alloc_ok n)"
proof -
  have r: "reachable (hash_const 0) (hash_table_init :: (string, nat) hash_table)"
    by (rule reachable.init)
  have e: "run_ops alloc_ok (hash_const 0) hash_table_init
             [Set ''a'' 1, Set ''b'' 2, Set ''a'' 5, Remove ''b''] = Some example_overwritten"
    by code_simp
  note c = get_returns_most_recent_set[OF r, of alloc_ok _ example_overwritten, THEN conjunct1,
      rule_format, OF e]
  have a: "get (hash_const 0) example_overwritten ''a'' = Some 5" using c[of "''a''"] by simp
  have b: "get (hash_const 0) example_overwritten ''b'' = None" using c[of "''b''"] by simp
  have n: "get (hash_const 0) example_overwritten ''c'' = None"
    using c[of "''c''"] by (simp add: get_def get_slot_def hash_table_init_def)
  from r e a b n show ?thesis by (simp add: alloc_ok_def)
qed

text \<open>
  C7. Capacity power of two. In every reachable state the capacity is 0 or a power of
  two. The sizing constructor always returns (its doubling loop ends for every 64-bit
  hint), and when it yields a table the capacity is a power of two and at least 8. On
  a reachable table \<^verbatim>\<open>rehash\<close>, if its allocation succeeds, returns a table of capacity 8
  when the capacity was 0 and of twice the capacity otherwise.
\<close>

theorem capacity_power_of_two:
  fixes t :: "('k::default, 'v::default) hash_table"
    and t1 :: "('k1::default, 'v1::default) hash_table"
    and t2 :: "('k2::default, 'v2::default) hash_table"
  shows "(reachable hash t \<longrightarrow> slots t = [] \<or> (\<exists>e. length (slots t) = 2 ^ e))
    \<and> (\<exists>r. hash_table_with_capacity alloc1 capacity = Some r
          \<and> (r = Inr t1 \<longrightarrow> 8 \<le> length (slots t1) \<and> (\<exists>e. length (slots t1) = 2 ^ e)))
    \<and> (reachable hash2 t2 \<longrightarrow> alloc2 (if slots t2 = [] then 8 else length (slots t2) * 2)
         \<longrightarrow> (\<exists>t'. rehash alloc2 hash2 t2 = Some (Inr t')
                \<and> length (slots t') = (if slots t2 = [] then 8 else length (slots t2) * 2)))"
proof (intro conjI impI)
  assume "reachable hash t"
  then have "valid hash t" by (rule reachable_valid)
  from valid_cap[OF this] show "slots t = [] \<or> (\<exists>e. length (slots t) = 2 ^ e)" by blast
next
  from hash_table_with_capacity_cases[of capacity alloc1]
  obtain e where e3: "3 \<le> e" and eq:
    "(hash_table_with_capacity alloc1 capacity :: (error + ('k1, 'v1) hash_table) option) =
       (if alloc1 (2 ^ e)
        then Some (Inr \<lparr>slots = replicate (2 ^ e) Slot_empty, count = 0, max_hash_offset = 0\<rparr>)
        else Some (Inl Terminate))"
    by blast
  have "(2::nat) ^ 3 \<le> 2 ^ e" using e3 by (intro power_increasing) simp_all
  then have 8: "(8::nat) \<le> 2 ^ e" by simp
  show "\<exists>r. hash_table_with_capacity alloc1 capacity = Some r
          \<and> (r = Inr t1 \<longrightarrow> 8 \<le> length (slots t1) \<and> (\<exists>e. length (slots t1) = 2 ^ e))"
  proof (cases "alloc1 (2 ^ e)")
    case True
    let ?r = "Inr \<lparr>slots = replicate (2 ^ e) Slot_empty, count = 0, max_hash_offset = 0\<rparr>
                :: error + ('k1, 'v1) hash_table"
    have "hash_table_with_capacity alloc1 capacity = Some ?r" using eq True by simp
    moreover have "?r = Inr t1 \<longrightarrow> 8 \<le> length (slots t1) \<and> (\<exists>e. length (slots t1) = 2 ^ e)"
      using 8 by auto
    ultimately show ?thesis by blast
  next
    case False
    then have "(hash_table_with_capacity alloc1 capacity :: (error + ('k1, 'v1) hash_table) option)
                 = Some (Inl Terminate)"
      using eq by simp
    then show ?thesis by simp
  qed
next
  assume r: "reachable hash2 t2" and al: "alloc2 (if slots t2 = [] then 8 else length (slots t2) * 2)"
  from r have v: "valid hash2 t2" by (rule reachable_valid)
  from al have "alloc2 (new_size t2)" by (simp add: new_size_def)
  from rehash_ok[of hash2 t2 alloc2, OF v this]
  show "\<exists>t'. rehash alloc2 hash2 t2 = Some (Inr t')
          \<and> length (slots t') = (if slots t2 = [] then 8 else length (slots t2) * 2)"
    unfolding new_size_def by blast
qed

theorem capacity_power_of_two_witness:
  "reachable hash_id example_seven
   \<and> (slots example_seven = [] \<or> (\<exists>e. length (slots example_seven) = 2 ^ e))
   \<and> hash_table_with_capacity alloc_ok 6 = Some (Inr example_sized)
   \<and> 8 \<le> length (slots example_sized) \<and> (\<exists>e. length (slots example_sized) = 2 ^ e)
   \<and> alloc_ok 16
   \<and> (\<exists>t'. rehash alloc_ok hash_id example_seven = Some (Inr t') \<and> length (slots t') = 16)"
proof -
  note c = capacity_power_of_two[of hash_id example_seven alloc_ok 6 example_sized
      hash_id example_seven alloc_ok]
  have g: "grow_cap 8 8 = Some 8" by (subst grow_cap.simps) simp
  have s: "hash_table_with_capacity alloc_ok 6 = Some (Inr example_sized)"
    by (simp add: hash_table_with_capacity_def g alloc_ok_def example_sized_def
        hash_table_init_def resize_def)
  have d: "(if slots example_seven = [] then 8 else length (slots example_seven) * 2) = 16"
    by code_simp
  have a: "alloc_ok 16" by (simp add: alloc_ok_def)
  from c s a example_seven_reachable show ?thesis unfolding d by auto
qed

text \<open>
  C8. Iteration completeness. On every reachable table the traversal from \<^verbatim>\<open>begin()\<close> to
  \<^verbatim>\<open>end()\<close> ends, and what it yields has \<open>count\<close> elements, no key twice, exactly the keys
  for which \<^verbatim>\<open>get\<close> succeeds, each with the value \<^verbatim>\<open>get\<close> returns.
\<close>

theorem iteration_complete:
  assumes "reachable hash t"
  shows "\<exists>kvs. iterate t = Some kvs \<and> length kvs = count t \<and> distinct (map key kvs)
           \<and> set (map key kvs) = {k. get hash t k \<noteq> None}
           \<and> (\<forall>e\<in>set kvs. get hash t (key e) = Some (val e))"
proof -
  have v: "valid hash t" using assms by (rule reachable_valid)
  let ?kvs = "map kv (filter used (slots t))"
  have 1: "iterate t = Some ?kvs" by (rule iterate_eq)
  have 2: "length ?kvs = count t" using valid_count[OF v] by simp
  have 3: "distinct (map key ?kvs)" using valid_distinct_keys[OF v] by (simp add: comp_def)
  have 4: "set (map key ?kvs) = {k. get hash t k \<noteq> None}"
  proof (rule set_eqI)
    fix k
    have "k \<in> set (map key ?kvs) \<longleftrightarrow> (\<exists>s\<in>set (slots t). used s \<and> key (kv s) = k)"
      by auto
    also have "\<dots> \<longleftrightarrow> (\<exists>w. \<exists>s\<in>set (slots t). used s \<and> key (kv s) = k \<and> val (kv s) = w)"
      by blast
    also have "\<dots> \<longleftrightarrow> (\<exists>w. get hash t k = Some w)"
      unfolding get_Some_set[OF v] ..
    finally show "k \<in> set (map key ?kvs) \<longleftrightarrow> k \<in> {k. get hash t k \<noteq> None}" by simp
  qed
  have 5: "\<forall>e\<in>set ?kvs. get hash t (key e) = Some (val e)"
  proof
    fix e assume "e \<in> set ?kvs"
    then obtain s where "s \<in> set (slots t)" "used s" "e = kv s" by auto
    then show "get hash t (key e) = Some (val e)"
      unfolding get_Some_set[OF v] by blast
  qed
  from 1 2 3 4 5 show ?thesis by blast
qed

theorem iteration_complete_witness:
  "reachable (hash_const 0) example_ac
   \<and> iterate example_ac = Some [\<lparr>key = ''a'', val = 1\<rparr>, \<lparr>key = ''c'', val = 3\<rparr>]
   \<and> (\<exists>kvs. iterate example_ac = Some kvs \<and> length kvs = count example_ac
          \<and> distinct (map key kvs)
          \<and> set (map key kvs) = {k. get (hash_const 0) example_ac k \<noteq> None}
          \<and> (\<forall>e\<in>set kvs. get (hash_const 0) example_ac (key e) = Some (val e)))"
proof -
  have i: "iterate example_ac = Some [\<lparr>key = ''a'', val = 1\<rparr>, \<lparr>key = ''c'', val = 3\<rparr>]"
    by code_simp
  from iteration_complete[OF example_ac_reachable] example_ac_reachable i
  show ?thesis by blast
qed

text \<open>
  C9. In every reachable state \<open>count\<close> is the number of slots whose \<open>used\<close> flag is set.
\<close>

theorem count_is_number_of_used_slots:
  "reachable hash t \<Longrightarrow> count t = length (filter used (slots t))"
  by (rule valid_count) (rule reachable_valid)

theorem count_is_number_of_used_slots_witness:
  "reachable hash_id example_seven
   \<and> count example_seven = length (filter used (slots example_seven))"
  using example_seven_reachable count_is_number_of_used_slots[OF example_seven_reachable]
  by (intro conjI)

text \<open>
  C10. Move construction. The new table has the slots, the count and the
  \<^verbatim>\<open>max_hash_offset\<close> of the source, hence the same lookups; the source is left with
  capacity 0, count 0 and \<^verbatim>\<open>max_hash_offset\<close> 0, and every lookup on it misses.
\<close>

theorem move_constructor_transfers:
  "slots (fst (hash_table_move t)) = slots t
   \<and> count (fst (hash_table_move t)) = count t
   \<and> max_hash_offset (fst (hash_table_move t)) = max_hash_offset t
   \<and> (\<forall>k. get hash (fst (hash_table_move t)) k = get hash t k)
   \<and> slots (snd (hash_table_move t)) = []
   \<and> count (snd (hash_table_move t)) = 0
   \<and> max_hash_offset (snd (hash_table_move t)) = 0
   \<and> (\<forall>k. get hash (snd (hash_table_move t)) k = None)"
  by (simp add: hash_table_move_eq get_clear) (simp add: clear_def)

theorem move_constructor_transfers_witness:
  "get (hash_const 0) (fst (hash_table_move example_abc)) ''c'' = Some 3
   \<and> count (fst (hash_table_move example_abc)) = 3
   \<and> slots (snd (hash_table_move example_abc)) = []
   \<and> get (hash_const 0) (snd (hash_table_move example_abc)) ''c'' = None"
proof -
  have "get (hash_const 0) example_abc ''c'' = Some 3" "count example_abc = 3" by code_simp+
  with move_constructor_transfers[of example_abc "hash_const 0"] show ?thesis by simp
qed

end
